theory Spec2Isabelle
  imports Main "HOL-Library.Word" "HOL-Library.Signed_Division"
begin

section \<open>Machine integers and time\<close>

text \<open>
  Go's \<open>uint64\<close> is a 64-bit word read unsigned. \<open>time.Duration\<close> is an \<open>int64\<close>
  count of nanoseconds: the same 64-bit word read with \<open>sint\<close>, so that \<open>+\<close>, \<open>-\<close>
  and \<open>*\<close> wrap as they do in Go. An instant (\<open>time.Time\<close>) is a number of
  nanoseconds on an unbounded time line; Go's \<open>int\<close> (configuration values, counters)
  is an integer, the counters of the maintenance loop being bounded by the pool size.
\<close>

type_synonym u64 = "64 word"
type_synonym Duration = "64 word"
type_synonym Time = int

definition MaxUint64 :: u64 where
  "MaxUint64 = 18446744073709551615"

definition Second :: Duration where
  "Second = 1000000000"

text \<open>Go's \<open>%\<close> on \<open>int64\<close>: the remainder of the division truncated towards zero.\<close>

definition rem_i64 :: "64 word \<Rightarrow> 64 word \<Rightarrow> 64 word" where
  "rem_i64 a b = word_of_int (sint a smod sint b)"

text \<open>\<open>t.Add(d)\<close>, and \<open>time.Duration(n) * time.Second\<close> for a Go \<open>int\<close> \<open>n\<close>.\<close>

definition Time_Add :: "Time \<Rightarrow> Duration \<Rightarrow> Time" where
  "Time_Add t d = t + sint d"

definition seconds :: "int \<Rightarrow> Duration" where
  "seconds n = word_of_int n * Second"

section \<open>Sessions, the idle pool and the session registry\<close>

text \<open>
  The fields of \<open>Session\<close> that the client reads and writes. Sessions are shared objects
  (\<open>*Session\<close>): the client state holds them in a store, \<open>heap\<close>, and the idle pool and
  the registry hold their addresses (indices into the store).
\<close>

record Session =
  seq :: u64
  createdAt :: Time
  idleSince :: Time
  closed :: bool

record Client =
  die :: bool
  sessionCounter :: u64
  idleSession :: "(u64 \<times> nat) list"
  sessions :: "(u64 \<times> nat) list"
  heap :: "Session list"
  idleSessionTimeout :: Duration
  minIdleSession :: int
  ensureIdleSession :: int
  ensureIdleSessionCreateRate :: int
  minIdleSessionForAge :: int
  maxConnectionLifetime :: Duration
  connectionLifetimeJitter :: Duration

record ClientConfig =
  cfg_IdleSessionCheckInterval :: Duration
  cfg_IdleSessionTimeout :: Duration
  cfg_MinIdleSession :: int
  cfg_EnsureIdleSession :: int
  cfg_EnsureIdleSessionCreateRate :: int
  cfg_MinIdleSessionForAge :: int
  cfg_MaxConnectionLifetime :: Duration
  cfg_ConnectionLifetimeJitter :: Duration

text \<open>
  Modelled from the spec: the skip list of package \<open>skiplist\<close>, which is not among the
  sources. It is an ordered map keyed by \<open>uint64\<close>: the entries are kept in ascending
  key order, \<open>Insert\<close> replaces the value of a key already present, \<open>Remove\<close> of an
  absent key does nothing, and \<open>Iterate\<close> starts at the smallest key.
\<close>

fun skiplist_Insert :: "u64 \<Rightarrow> nat \<Rightarrow> (u64 \<times> nat) list \<Rightarrow> (u64 \<times> nat) list" where
  "skiplist_Insert k v [] = [(k, v)]"
| "skiplist_Insert k v (e # es) =
     (if k < fst e then (k, v) # e # es
      else if k = fst e then (k, v) # es
      else e # skiplist_Insert k v es)"

definition skiplist_Remove :: "u64 \<Rightarrow> (u64 \<times> nat) list \<Rightarrow> (u64 \<times> nat) list" where
  "skiplist_Remove k es = filter (\<lambda>e. fst e \<noteq> k) es"

text \<open>The Go map \<open>sessions\<close>: \<open>m[k] = v\<close> and \<open>delete(m, k)\<close>.\<close>

fun map_store :: "u64 \<Rightarrow> nat \<Rightarrow> (u64 \<times> nat) list \<Rightarrow> (u64 \<times> nat) list" where
  "map_store k v [] = [(k, v)]"
| "map_store k v (e # es) = (if k = fst e then (k, v) # es else e # map_store k v es)"

definition map_delete :: "u64 \<Rightarrow> (u64 \<times> nat) list \<Rightarrow> (u64 \<times> nat) list" where
  "map_delete k es = filter (\<lambda>e. fst e \<noteq> k) es"

section \<open>Session death\<close>

text \<open>The \<open>dieHook\<close> that \<open>createSession\<close> installs on a session.\<close>

definition session_dieHook :: "Client \<Rightarrow> nat \<Rightarrow> Client" where
  "session_dieHook c a =
     c\<lparr>idleSession := skiplist_Remove (MaxUint64 - seq (heap c ! a)) (idleSession c),
       sessions := map_delete (seq (heap c ! a)) (sessions c)\<rparr>"

text \<open>
  Modelled from the spec: \<open>Session.Close\<close>, whose source file is not among the sources.
  It is idempotent, the session is closed afterwards, and the death hook runs exactly once,
  when the session goes from open to closed.
\<close>

definition Session_Close :: "Client \<Rightarrow> nat \<Rightarrow> Client" where
  "Session_Close c a =
     (if closed (heap c ! a) then c
      else session_dieHook (c\<lparr>heap := (heap c)[a := (heap c ! a)\<lparr>closed := True\<rparr>]\<rparr>) a)"

section \<open>The maintenance cycle\<close>

text \<open>The lifetime of one session, with the jitter derived from its sequence number.\<close>

definition sessionLifetime :: "Client \<Rightarrow> Session \<Rightarrow> Duration" where
  "sessionLifetime c session =
     (if 0 <s connectionLifetimeJitter c then
        (let jitterRange = connectionLifetimeJitter c;
             jitterOffset = rem_i64 (seq session) (jitterRange * 2)
         in maxConnectionLifetime c - connectionLifetimeJitter c + jitterOffset)
      else maxConnectionLifetime c)"

text \<open>The state of the loop of \<open>cleanup\<close>: the client and the loop's local variables.\<close>

record cleanup_locals =
  cl :: Client
  idleSessionsToClose :: "nat list"
  ageSessionsToClose :: "nat list"
  idleActiveCount :: int
  ageActiveCount :: int

text \<open>
  The tests of one iteration, on the session at address \<open>a\<close>:
  \<open>session.idleSince.Before(idleExpTime)\<close> and \<open>now.After(ageExpTime)\<close>, the two flags
  \<open>shouldCloseIdle\<close> and \<open>shouldCloseAge\<close>, and \<open>ageChecked\<close>: the age check is enabled,
  is reached (the session is not marked for idle-close) and finds the session expired.
\<close>

definition idleExpired :: "Client \<Rightarrow> Time \<Rightarrow> Session \<Rightarrow> bool" where
  "idleExpired c now session =
     (idleSince session < Time_Add now (- idleSessionTimeout c))"

definition ageExpired :: "Client \<Rightarrow> Time \<Rightarrow> Session \<Rightarrow> bool" where
  "ageExpired c now session =
     (Time_Add (createdAt session) (sessionLifetime c session) < now)"

definition shouldCloseIdle :: "Time \<Rightarrow> nat \<Rightarrow> cleanup_locals \<Rightarrow> bool" where
  "shouldCloseIdle now a st =
     (idleExpired (cl st) now (heap (cl st) ! a) \<and> minIdleSession (cl st) \<le> idleActiveCount st)"

definition ageChecked :: "Time \<Rightarrow> nat \<Rightarrow> cleanup_locals \<Rightarrow> bool" where
  "ageChecked now a st =
     (0 <s maxConnectionLifetime (cl st) \<and> \<not> shouldCloseIdle now a st \<and>
      ageExpired (cl st) now (heap (cl st) ! a))"

definition shouldCloseAge :: "Time \<Rightarrow> nat \<Rightarrow> cleanup_locals \<Rightarrow> bool" where
  "shouldCloseAge now a st =
     (ageChecked now a st \<and> minIdleSessionForAge (cl st) \<le> ageActiveCount st)"

text \<open>One iteration of the loop, on the pool entry \<open>(key, a)\<close>.\<close>

definition cleanup_visit :: "Time \<Rightarrow> u64 \<times> nat \<Rightarrow> cleanup_locals \<Rightarrow> cleanup_locals" where
  "cleanup_visit now e st =
     (let key = fst e; a = snd e; c = cl st; session = heap c ! a;
          st1 = (if idleExpired c now session then
                   (if minIdleSession c \<le> idleActiveCount st then st
                    else st\<lparr>cl := c\<lparr>heap := (heap c)[a := session\<lparr>idleSince := now\<rparr>]\<rparr>,
                            idleActiveCount := idleActiveCount st + 1\<rparr>)
                 else st\<lparr>idleActiveCount := idleActiveCount st + 1\<rparr>);
          st2 = (if ageChecked now a st \<and> \<not> shouldCloseAge now a st
                 then st1\<lparr>ageActiveCount := ageActiveCount st1 + 1\<rparr> else st1)
      in if shouldCloseIdle now a st then
           st2\<lparr>idleSessionsToClose := idleSessionsToClose st2 @ [a],
               cl := (cl st2)\<lparr>idleSession := skiplist_Remove key (idleSession (cl st2))\<rparr>\<rparr>
         else if shouldCloseAge now a st then
           st2\<lparr>ageSessionsToClose := ageSessionsToClose st2 @ [a],
               cl := (cl st2)\<lparr>idleSession := skiplist_Remove key (idleSession (cl st2))\<rparr>\<rparr>
         else st2)"

definition cleanup_init :: "Client \<Rightarrow> cleanup_locals" where
  "cleanup_init c =
     \<lparr>cl = c, idleSessionsToClose = [], ageSessionsToClose = [],
      idleActiveCount = 0, ageActiveCount = 0\<rparr>"

text \<open>
  The loop visits the entries the pool holds when the tick starts, in ascending key order;
  the entry under the iterator is removed only after the iterator has moved on.
\<close>

definition cleanup_scan :: "Time \<Rightarrow> Client \<Rightarrow> cleanup_locals" where
  "cleanup_scan now c = fold (cleanup_visit now) (idleSession c) (cleanup_init c)"

text \<open>The loops \<open>for _, session := range ... { session.Close() }\<close>.\<close>

definition close_all :: "nat list \<Rightarrow> Client \<Rightarrow> Client" where
  "close_all as c = fold (\<lambda>a c'. Session_Close c' a) as c"

text \<open>
  \<open>cleanup\<close> returns the client after the scan and the closes, and the number of
  proactive creators it starts; each creator runs later, as \<open>proactive_creator\<close>.
\<close>

definition cleanup :: "Time \<Rightarrow> Client \<Rightarrow> Client \<times> nat" where
  "cleanup now c =
     (let st = cleanup_scan now c;
          currentPoolSize = int (length (idleSession (cl st)));
          c1 = close_all (idleSessionsToClose st) (cl st);
          c2 = close_all (ageSessionsToClose st) c1;
          toCreate =
            (if 0 < ensureIdleSession c then
               (let deficit = ensureIdleSession c - currentPoolSize in
                if 0 < deficit then
                  (if 0 < ensureIdleSessionCreateRate c \<and> ensureIdleSessionCreateRate c < deficit
                   then ensureIdleSessionCreateRate c else deficit)
                else 0)
             else 0)
      in (c2, nat toCreate))"

section \<open>Construction, acquisition and shutdown\<close>

text \<open>
  \<open>NewClient\<close>: the configuration is stored as given, except that an idle timeout of at
  most five seconds becomes thirty seconds. The check interval, which only drives the
  ticker, gets the same default.
\<close>

definition NewClient_checkInterval :: "ClientConfig \<Rightarrow> Duration" where
  "NewClient_checkInterval config =
     (if cfg_IdleSessionCheckInterval config \<le>s Second * 5 then Second * 30
      else cfg_IdleSessionCheckInterval config)"

definition NewClient :: "ClientConfig \<Rightarrow> Client" where
  "NewClient config =
     \<lparr>die = False, sessionCounter = 0, idleSession = [], sessions = [], heap = [],
      idleSessionTimeout =
        (if cfg_IdleSessionTimeout config \<le>s Second * 5 then Second * 30
         else cfg_IdleSessionTimeout config),
      minIdleSession = cfg_MinIdleSession config,
      ensureIdleSession = cfg_EnsureIdleSession config,
      ensureIdleSessionCreateRate = cfg_EnsureIdleSessionCreateRate config,
      minIdleSessionForAge = cfg_MinIdleSessionForAge config,
      maxConnectionLifetime = cfg_MaxConnectionLifetime config,
      connectionLifetimeJitter = cfg_ConnectionLifetimeJitter config\<rparr>"

text \<open>
  \<open>createSession\<close>: \<open>dialOK\<close> is the outcome of \<open>dialOut\<close>. The new session object gets
  the next address of the store; its \<open>idleSince\<close> is Go's zero time until it is pooled.
\<close>

definition createSession :: "Time \<Rightarrow> bool \<Rightarrow> Client \<Rightarrow> Client \<times> nat option" where
  "createSession now dialOK c =
     (if \<not> dialOK then (c, None)
      else
        (let n = sessionCounter c + 1; a = length (heap c);
             session = \<lparr>seq = n, createdAt = now, idleSince = 0, closed = False\<rparr>
         in (c\<lparr>sessionCounter := n, heap := heap c @ [session],
               sessions := map_store n a (sessions c)\<rparr>, Some a)))"

text \<open>
  The body of one proactive creator started by \<open>cleanup\<close>: \<open>createSession\<close>, then the
  insertion into the idle pool.
\<close>

definition proactive_creator :: "Time \<Rightarrow> Time \<Rightarrow> bool \<Rightarrow> Client \<Rightarrow> Client" where
  "proactive_creator tCreated tIdle dialOK c =
     (case createSession tCreated dialOK c of
        (c1, None) \<Rightarrow> c1
      | (c1, Some a) \<Rightarrow>
          c1\<lparr>heap := (heap c1)[a := (heap c1 ! a)\<lparr>idleSince := tIdle\<rparr>],
             idleSession :=
               skiplist_Insert (MaxUint64 - seq (heap c1 ! a)) a (idleSession c1)\<rparr>)"

definition getIdleSession :: "Client \<Rightarrow> Client \<times> nat option" where
  "getIdleSession c =
     (case idleSession c of
        [] \<Rightarrow> (c, None)
      | e # es \<Rightarrow> (c\<lparr>idleSession := skiplist_Remove (fst e) (idleSession c)\<rparr>, Some (snd e)))"

datatype error = ErrClosedPipe | FailedToCreateSession | FailedToCreateStream

text \<open>
  \<open>CreateStream\<close>: \<open>openOK\<close> is the outcome of \<open>session.OpenStream\<close>. The stream that is
  returned is named by the address of its session, which is what its \<open>dieHook\<close> captures.
  \<open>openStream\<close> is the end of \<open>CreateStream\<close>, from \<open>session.OpenStream()\<close> on.
\<close>

definition openStream :: "bool \<Rightarrow> nat \<Rightarrow> Client \<Rightarrow> Client \<times> (error + nat)" where
  "openStream openOK a c =
     (if openOK then (c, Inr a) else (Session_Close c a, Inl FailedToCreateStream))"

definition CreateStream :: "Time \<Rightarrow> bool \<Rightarrow> bool \<Rightarrow> Client \<Rightarrow> Client \<times> (error + nat)" where
  "CreateStream now dialOK openOK c =
     (if die c then (c, Inl ErrClosedPipe)
      else
        (case getIdleSession c of
           (c1, Some a) \<Rightarrow> openStream openOK a c1
         | (c1, None) \<Rightarrow>
             (case createSession now dialOK c1 of
                (c2, None) \<Rightarrow> (c2, Inl FailedToCreateSession)
              | (c2, Some a) \<Rightarrow> openStream openOK a c2)))"

text \<open>
  The \<open>dieHook\<close> of a stream of session \<open>a\<close>. The close that the hook starts with
  \<open>go session.Close()\<close> is taken at once.
\<close>

definition stream_dieHook :: "Time \<Rightarrow> nat \<Rightarrow> Client \<Rightarrow> Client" where
  "stream_dieHook now a c =
     (if \<not> closed (heap c ! a) then
        (if die c then Session_Close c a
         else c\<lparr>heap := (heap c)[a := (heap c ! a)\<lparr>idleSince := now\<rparr>],
                idleSession :=
                  skiplist_Insert (MaxUint64 - seq (heap c ! a)) a (idleSession c)\<rparr>)
      else c)"

text \<open>
  \<open>Close\<close> in its two parts: first the cancellation and, under the registry lock, the
  snapshot and the emptying of the registry; then, with no lock held, the close of every
  session of the snapshot.
\<close>

definition Close_snapshot :: "Client \<Rightarrow> Client \<times> nat list" where
  "Close_snapshot c =
     (let c1 = c\<lparr>die := True\<rparr>;
          sessionToClose = map snd (sessions c1)
      in (c1\<lparr>sessions := []\<rparr>, sessionToClose))"

definition Close :: "Client \<Rightarrow> Client" where
  "Close c = (case Close_snapshot c of (c2, sessionToClose) \<Rightarrow> close_all sessionToClose c2)"

section \<open>Histories of the client\<close>

text \<open>
  What can happen to a client, each event taken as one step: a call of \<open>CreateStream\<close>,
  the end of a stream of session \<open>a\<close>, the death of session \<open>a\<close> (its transport fails or
  it is closed), a tick, the run of a proactive creator, and \<open>Close\<close>.
\<close>

datatype event =
    EvCreateStream Time bool bool
  | EvStreamEnd Time nat
  | EvSessionDeath nat
  | EvCleanup Time
  | EvCreator Time Time bool
  | EvClose

fun apply_event :: "event \<Rightarrow> Client \<Rightarrow> Client" where
  "apply_event (EvCreateStream now dialOK openOK) c = fst (CreateStream now dialOK openOK c)"
| "apply_event (EvStreamEnd now a) c = stream_dieHook now a c"
| "apply_event (EvSessionDeath a) c = Session_Close c a"
| "apply_event (EvCleanup now) c = fst (cleanup now c)"
| "apply_event (EvCreator tCreated tIdle dialOK) c = proactive_creator tCreated tIdle dialOK c"
| "apply_event EvClose c = Close c"

text \<open>An event about a session can only happen to a session that exists.\<close>

fun event_ok :: "event \<Rightarrow> Client \<Rightarrow> bool" where
  "event_ok (EvStreamEnd now a) c = (a < length (heap c))"
| "event_ok (EvSessionDeath a) c = (a < length (heap c))"
| "event_ok ev c = True"

fun run :: "event list \<Rightarrow> Client \<Rightarrow> Client option" where
  "run [] c = Some c"
| "run (ev # evs) c = (if event_ok ev c then run evs (apply_event ev c) else None)"

section \<open>The effective configuration\<close>

text \<open>
  The global section \<open>AnyTLSSessionManagement\<close>, the three legacy fields of
  \<open>AnyTLSOption\<close> with its \<open>SessionOverride\<close>, and the override block, whose fields are
  pointers (\<open>None\<close> is \<open>nil\<close>).
\<close>

record AnyTLSSessionManagement =
  glb_EnsureIdleSession :: int
  glb_MinIdleSession :: int
  glb_MinIdleSessionForAge :: int
  glb_EnsureIdleSessionCreateRate :: int
  glb_MaxConnectionLifetime :: Duration
  glb_ConnectionLifetimeJitter :: Duration
  glb_IdleSessionTimeout :: Duration
  glb_IdleSessionCheckInterval :: Duration

record AnyTLSSessionOverride =
  ovr_EnsureIdleSession :: "int option"
  ovr_MinIdleSession :: "int option"
  ovr_MinIdleSessionForAge :: "int option"
  ovr_EnsureIdleSessionCreateRate :: "int option"
  ovr_MaxConnectionLifetime :: "int option"
  ovr_ConnectionLifetimeJitter :: "int option"
  ovr_IdleSessionTimeout :: "int option"
  ovr_IdleSessionCheckInterval :: "int option"

record AnyTLSOption =
  opt_IdleSessionCheckInterval :: int
  opt_IdleSessionTimeout :: int
  opt_MinIdleSession :: int
  opt_SessionOverride :: "AnyTLSSessionOverride option"

text \<open>The zero value of the configuration, before any layer is applied.\<close>

definition zero_ClientConfig :: ClientConfig where
  "zero_ClientConfig =
     \<lparr>cfg_IdleSessionCheckInterval = 0, cfg_IdleSessionTimeout = 0, cfg_MinIdleSession = 0,
      cfg_EnsureIdleSession = 0, cfg_EnsureIdleSessionCreateRate = 0,
      cfg_MinIdleSessionForAge = 0, cfg_MaxConnectionLifetime = 0,
      cfg_ConnectionLifetimeJitter = 0\<rparr>"

text \<open>The three layers of \<open>NewAnyTLS\<close>, applied in the order of the source.\<close>

definition apply_global :: "AnyTLSSessionManagement option \<Rightarrow> ClientConfig \<Rightarrow> ClientConfig" where
  "apply_global globalCfg t =
     (case globalCfg of
        None \<Rightarrow> t
      | Some g \<Rightarrow>
          t\<lparr>cfg_IdleSessionCheckInterval := glb_IdleSessionCheckInterval g,
            cfg_IdleSessionTimeout := glb_IdleSessionTimeout g,
            cfg_MinIdleSession := glb_MinIdleSession g,
            cfg_EnsureIdleSession := glb_EnsureIdleSession g,
            cfg_EnsureIdleSessionCreateRate := glb_EnsureIdleSessionCreateRate g,
            cfg_MinIdleSessionForAge := glb_MinIdleSessionForAge g,
            cfg_MaxConnectionLifetime := glb_MaxConnectionLifetime g,
            cfg_ConnectionLifetimeJitter := glb_ConnectionLifetimeJitter g\<rparr>)"

definition apply_legacy :: "AnyTLSOption \<Rightarrow> ClientConfig \<Rightarrow> ClientConfig" where
  "apply_legacy option t =
     (let t1 = (if 0 < opt_IdleSessionCheckInterval option
                then t\<lparr>cfg_IdleSessionCheckInterval :=
                         seconds (opt_IdleSessionCheckInterval option)\<rparr>
                else t);
          t2 = (if 0 < opt_IdleSessionTimeout option
                then t1\<lparr>cfg_IdleSessionTimeout := seconds (opt_IdleSessionTimeout option)\<rparr>
                else t1)
      in if 0 < opt_MinIdleSession option
         then t2\<lparr>cfg_MinIdleSession := opt_MinIdleSession option\<rparr>
         else t2)"

definition apply_override :: "AnyTLSSessionOverride option \<Rightarrow> ClientConfig \<Rightarrow> ClientConfig" where
  "apply_override sessionOverride t =
     (case sessionOverride of
        None \<Rightarrow> t
      | Some override \<Rightarrow>
          (let t1 = (case ovr_EnsureIdleSession override of
                       None \<Rightarrow> t | Some v \<Rightarrow> t\<lparr>cfg_EnsureIdleSession := v\<rparr>);
               t2 = (case ovr_MinIdleSession override of
                       None \<Rightarrow> t1 | Some v \<Rightarrow> t1\<lparr>cfg_MinIdleSession := v\<rparr>);
               t3 = (case ovr_MinIdleSessionForAge override of
                       None \<Rightarrow> t2 | Some v \<Rightarrow> t2\<lparr>cfg_MinIdleSessionForAge := v\<rparr>);
               t4 = (case ovr_EnsureIdleSessionCreateRate override of
                       None \<Rightarrow> t3 | Some v \<Rightarrow> t3\<lparr>cfg_EnsureIdleSessionCreateRate := v\<rparr>);
               t5 = (case ovr_MaxConnectionLifetime override of
                       None \<Rightarrow> t4 | Some v \<Rightarrow> t4\<lparr>cfg_MaxConnectionLifetime := seconds v\<rparr>);
               t6 = (case ovr_ConnectionLifetimeJitter override of
                       None \<Rightarrow> t5 | Some v \<Rightarrow> t5\<lparr>cfg_ConnectionLifetimeJitter := seconds v\<rparr>);
               t7 = (case ovr_IdleSessionTimeout override of
                       None \<Rightarrow> t6 | Some v \<Rightarrow> t6\<lparr>cfg_IdleSessionTimeout := seconds v\<rparr>)
           in case ovr_IdleSessionCheckInterval override of
                None \<Rightarrow> t7 | Some v \<Rightarrow> t7\<lparr>cfg_IdleSessionCheckInterval := seconds v\<rparr>))"

text \<open>
  The session configuration that \<open>NewAnyTLS\<close> builds in \<open>tOption\<close>, and the client made
  from it. The wrapper between the two (package \<open>anytls\<close>) is not among the sources; by
  the spec the merged configuration is the one the pool manager is constructed with.
\<close>

definition NewAnyTLS_tOption :: "AnyTLSSessionManagement option \<Rightarrow> AnyTLSOption \<Rightarrow> ClientConfig" where
  "NewAnyTLS_tOption globalCfg option =
     apply_override (opt_SessionOverride option)
       (apply_legacy option (apply_global globalCfg zero_ClientConfig))"

definition NewAnyTLS_client :: "AnyTLSSessionManagement option \<Rightarrow> AnyTLSOption \<Rightarrow> Client" where
  "NewAnyTLS_client globalCfg option = NewClient (NewAnyTLS_tOption globalCfg option)"

section \<open>Concrete clients and sessions\<close>

definition lifetime_client :: "Duration \<Rightarrow> Duration \<Rightarrow> Client" where
  "lifetime_client maxLifetime jitter =
     NewClient (zero_ClientConfig\<lparr>cfg_MaxConnectionLifetime := maxLifetime,
                                  cfg_ConnectionLifetimeJitter := jitter\<rparr>)"

definition numbered_session :: "u64 \<Rightarrow> Session" where
  "numbered_session n = \<lparr>seq = n, createdAt = 0, idleSince = 0, closed = False\<rparr>"

section \<open>The merge in the words of the spec\<close>

text \<open>
  Three layers, the highest priority winning field by field: the per-proxy override when
  the field is not null, then the legacy per-proxy field when it is set greater than 0,
  then the global configuration, then the default.
\<close>

definition priority_merge :: "'a option \<Rightarrow> 'a option \<Rightarrow> 'a option \<Rightarrow> 'a \<Rightarrow> 'a" where
  "priority_merge override legacy global dflt =
     (case override of
        Some v \<Rightarrow> v
      | None \<Rightarrow> (case legacy of
                   Some v \<Rightarrow> v
                 | None \<Rightarrow> (case global of Some v \<Rightarrow> v | None \<Rightarrow> dflt)))"

definition override_field :: "AnyTLSOption \<Rightarrow> (AnyTLSSessionOverride \<Rightarrow> int option) \<Rightarrow> int option" where
  "override_field option field =
     (case opt_SessionOverride option of None \<Rightarrow> None | Some override \<Rightarrow> field override)"

definition legacy_field :: "int \<Rightarrow> int option" where
  "legacy_field n = (if 0 < n then Some n else None)"

definition global_field :: "AnyTLSSessionManagement option \<Rightarrow> (AnyTLSSessionManagement \<Rightarrow> 'a) \<Rightarrow> 'a option" where
  "global_field globalCfg field =
     (case globalCfg of None \<Rightarrow> None | Some g \<Rightarrow> Some (field g))"

text \<open>Layers for the examples: an option block without override, and an empty override.\<close>

definition plain_option :: AnyTLSOption where
  "plain_option =
     \<lparr>opt_IdleSessionCheckInterval = 0, opt_IdleSessionTimeout = 0, opt_MinIdleSession = 0,
      opt_SessionOverride = None\<rparr>"

definition empty_override :: AnyTLSSessionOverride where
  "empty_override =
     \<lparr>ovr_EnsureIdleSession = None, ovr_MinIdleSession = None,
      ovr_MinIdleSessionForAge = None, ovr_EnsureIdleSessionCreateRate = None,
      ovr_MaxConnectionLifetime = None, ovr_ConnectionLifetimeJitter = None,
      ovr_IdleSessionTimeout = None, ovr_IdleSessionCheckInterval = None\<rparr>"

text \<open>A global section with a lifetime of one hour and a jitter of thirty minutes.\<close>

definition hourly_global :: AnyTLSSessionManagement where
  "hourly_global =
     \<lparr>glb_EnsureIdleSession = 0, glb_MinIdleSession = 0, glb_MinIdleSessionForAge = 0,
      glb_EnsureIdleSessionCreateRate = 0,
      glb_MaxConnectionLifetime = seconds 3600, glb_ConnectionLifetimeJitter = seconds 1800,
      glb_IdleSessionTimeout = 0, glb_IdleSessionCheckInterval = 0\<rparr>"

text \<open>An override that shortens the lifetime to ten minutes and sets nothing else.\<close>

definition short_lifetime_option :: AnyTLSOption where
  "short_lifetime_option =
     plain_option\<lparr>opt_SessionOverride :=
       Some (empty_override\<lparr>ovr_MaxConnectionLifetime := Some 600\<rparr>)\<rparr>"

text \<open>
  A client that keeps one idle session ready, and its state after a tick, a \<open>Close\<close>, and
  the run of the creator that the tick started, whose dial succeeds after the \<open>Close\<close>.
\<close>

definition proactive_config :: ClientConfig where
  "proactive_config = zero_ClientConfig\<lparr>cfg_EnsureIdleSession := 1\<rparr>"

definition late_creator_client :: Client where
  "late_creator_client =
     proactive_creator 2000 2000 True
       (Close (fst (cleanup 1000 (NewClient proactive_config))))"

text \<open>
  The idle-eviction scenario: a timeout of thirty seconds and a floor of two sessions;
  five sessions created and pooled at time 0; one tick sixty seconds later.
\<close>

definition idle_floor_config :: ClientConfig where
  "idle_floor_config =
     zero_ClientConfig\<lparr>cfg_IdleSessionTimeout := seconds 30, cfg_MinIdleSession := 2\<rparr>"

definition five_idle_client :: Client where
  "five_idle_client =
     fold apply_event (replicate 5 (EvCreator 0 0 True)) (NewClient idle_floor_config)"

definition five_idle_after_tick :: Client where
  "five_idle_after_tick = fst (cleanup 60000000000 five_idle_client)"

text \<open>
  The age-rotation scenario: a lifetime of 100s with a jitter of 10s and one protected
  session; two sessions created at time 0 and pooled at 100s; one tick at 105s.
\<close>

definition age_rotation_config :: ClientConfig where
  "age_rotation_config =
     zero_ClientConfig\<lparr>cfg_MaxConnectionLifetime := seconds 100,
                       cfg_ConnectionLifetimeJitter := seconds 10,
                       cfg_MinIdleSessionForAge := 1\<rparr>"

definition two_aged_client :: Client where
  "two_aged_client =
     fold apply_event (replicate 2 (EvCreator 0 100000000000 True))
       (NewClient age_rotation_config)"

text \<open>
  A session that is both idle for too long and too old, under an idle floor of one session
  and no age floor: created and pooled at time 0, lifetime 100s, one tick at 105s.
\<close>

definition idle_floor_age_config :: ClientConfig where
  "idle_floor_age_config =
     zero_ClientConfig\<lparr>cfg_IdleSessionTimeout := seconds 30, cfg_MinIdleSession := 1,
                       cfg_MaxConnectionLifetime := seconds 100\<rparr>"

definition one_old_client :: Client where
  "one_old_client = apply_event (EvCreator 0 0 True) (NewClient idle_floor_age_config)"

section \<open>Invariants of the pool and the registry\<close>

text \<open>
  The idle pool and the session registry as sets of sessions, and the invariants of the
  data model: the pool is ordered by key and every pooled session sits under the key
  \<open>MaxUint64 - seq\<close>; sessions are numbered in the order of their creation; pooled
  sessions are open and every open session is registered. While \<open>Close\<close> works through
  its snapshot, the open sessions it has taken from the registry are those still to be
  closed (\<open>todo\<close>).
\<close>

definition IdlePool :: "Client \<Rightarrow> nat set" where
  "IdlePool c = snd ` set (idleSession c)"

definition SessionRegistry :: "Client \<Rightarrow> nat set" where
  "SessionRegistry c = snd ` set (sessions c)"

definition keyed :: "Session list \<Rightarrow> (u64 \<times> nat) list \<Rightarrow> bool" where
  "keyed h p =
     (sorted_wrt (<) (map fst p) \<and>
      (\<forall>e \<in> set p. snd e < length h \<and> fst e = MaxUint64 - seq (h ! snd e)))"

definition pool_keyed :: "Client \<Rightarrow> bool" where
  "pool_keyed c = keyed (heap c) (idleSession c)"

definition registry_inv :: "nat list \<Rightarrow> Client \<Rightarrow> bool" where
  "registry_inv todo c =
     (sessionCounter c = of_nat (length (heap c)) \<and>
      (\<forall>a < length (heap c). seq (heap c ! a) = of_nat (Suc a)) \<and>
      (\<forall>e \<in> set (idleSession c). \<not> closed (heap c ! snd e)) \<and>
      (\<forall>e \<in> set (sessions c). snd e < length (heap c)) \<and>
      (\<forall>a \<in> set todo. a < length (heap c)) \<and>
      (\<forall>a < length (heap c). \<not> closed (heap c ! a) \<longrightarrow>
         (seq (heap c ! a), a) \<in> set (sessions c) \<or> a \<in> set todo))"

text \<open>
  The effective lifetime in the words of the spec, on the scale of its scenario (whole
  seconds): \<open>max_connection_lifetime + (seq mod (2 * jitter)) - jitter\<close> when the jitter
  is positive.
\<close>

definition spec_effective_seconds :: "int \<Rightarrow> int \<Rightarrow> int \<Rightarrow> int" where
  "spec_effective_seconds maxLifetime jitter n =
     (if 0 < jitter then maxLifetime + n mod (2 * jitter) - jitter else maxLifetime)"

section \<open>Steps of the client\<close>

text \<open>
  The operations of the client, split where they hold no lock. \<open>pool_insert\<close> is the
  insertion under the pool lock, as the stream hook and the proactive creator do it;
  both decide before they take the lock, the hook by its tests of \<open>session.IsClosed()\<close> and
  \<open>c.die\<close>, the creator by the success of \<open>createSession\<close>.
\<close>

definition pool_insert :: "Time \<Rightarrow> nat \<Rightarrow> Client \<Rightarrow> Client" where
  "pool_insert now a c =
     c\<lparr>heap := (heap c)[a := (heap c ! a)\<lparr>idleSince := now\<rparr>],
       idleSession := skiplist_Insert (MaxUint64 - seq (heap c ! a)) a (idleSession c)\<rparr>"

text \<open>
  The system: the client, and the sessions that calls of \<open>Close\<close> have taken into their
  snapshots and not closed yet.
\<close>

record Sys =
  client :: Client
  closing :: "nat list"

text \<open>
  The steps: \<open>createSession\<close> (dial, number, register), \<open>getIdleSession\<close>, the insertion
  of session \<open>a\<close> into the pool, \<open>session.Close()\<close> or the death of session \<open>a\<close>, the loop
  of \<open>cleanup\<close> under the pool lock, the first part of \<open>Close\<close> (cancel, snapshot, empty
  the registry), and one round of its closing loop.
\<close>

datatype step =
    StCreateSession Time bool
  | StGetIdleSession
  | StInsert Time nat
  | StSessionClose nat
  | StScan Time
  | StCloseSnapshot
  | StCloseNext

fun apply_step :: "step \<Rightarrow> Sys \<Rightarrow> Sys" where
  "apply_step (StCreateSession now dialOK) s =
     s\<lparr>client := fst (createSession now dialOK (client s))\<rparr>"
| "apply_step StGetIdleSession s = s\<lparr>client := fst (getIdleSession (client s))\<rparr>"
| "apply_step (StInsert now a) s = s\<lparr>client := pool_insert now a (client s)\<rparr>"
| "apply_step (StSessionClose a) s = s\<lparr>client := Session_Close (client s) a\<rparr>"
| "apply_step (StScan now) s = s\<lparr>client := cl (cleanup_scan now (client s))\<rparr>"
| "apply_step StCloseSnapshot s =
     \<lparr>client = fst (Close_snapshot (client s)),
      closing = closing s @ snd (Close_snapshot (client s))\<rparr>"
| "apply_step StCloseNext s =
     (case closing s of
        [] \<Rightarrow> s
      | a # rest \<Rightarrow> \<lparr>client = Session_Close (client s) a, closing = rest\<rparr>)"

text \<open>A step about a session can only happen to a session that exists.\<close>

fun step_ok :: "step \<Rightarrow> Sys \<Rightarrow> bool" where
  "step_ok (StInsert now a) s = (a < length (heap (client s)))"
| "step_ok (StSessionClose a) s = (a < length (heap (client s)))"
| "step_ok st s = True"

fun steps_run :: "step list \<Rightarrow> Sys \<Rightarrow> Sys option" where
  "steps_run [] s = Some s"
| "steps_run (st # sts) s = (if step_ok st s then steps_run sts (apply_step st s) else None)"

text \<open>Every insertion of the history inserts a session that is open at that moment.\<close>

fun insert_open :: "step \<Rightarrow> Sys \<Rightarrow> bool" where
  "insert_open (StInsert now a) s = (\<not> closed (heap (client s) ! a))"
| "insert_open st s = True"

fun inserts_open :: "step list \<Rightarrow> Sys \<Rightarrow> bool" where
  "inserts_open [] s = True"
| "inserts_open (st # sts) s = (insert_open st s \<and> inserts_open sts (apply_step st s))"

definition start :: "ClientConfig \<Rightarrow> Sys" where
  "start config = \<lparr>client = NewClient config, closing = []\<rparr>"

text \<open>
  Four histories. The first stops inside \<open>Close\<close>, after the registry was emptied and
  before the pooled session of the snapshot is closed. In the second \<open>Close\<close> runs between
  the registration of a session and its insertion into the pool. The third uses every
  step and stops inside \<open>Close\<close>, one session of the snapshot closed and one still to
  close. In the fourth the session counter wraps around: a first session stays open,
  \<open>2^64 - 1\<close> further sessions are created and closed at once, one more session is
  created, and the first one is pooled.
\<close>

definition midclose_history :: "step list" where
  "midclose_history = [StCreateSession 0 True, StInsert 0 0, StCloseSnapshot]"

definition midclose_sys :: Sys where
  "midclose_sys = fold apply_step midclose_history (start zero_ClientConfig)"

definition raced_history :: "step list" where
  "raced_history = [StCreateSession 0 True, StCloseSnapshot, StCloseNext, StInsert 1 0]"

definition raced_sys :: Sys where
  "raced_sys = fold apply_step raced_history (start zero_ClientConfig)"

definition stepwise_history :: "step list" where
  "stepwise_history =
     [StCreateSession 0 True, StInsert 0 0, StGetIdleSession, StCreateSession 2 True,
      StInsert 3 0, StInsert 3 1, StScan 4, StCloseSnapshot, StCloseNext]"

definition stepwise_sys :: Sys where
  "stepwise_sys = fold apply_step stepwise_history (start zero_ClientConfig)"

definition churn :: "nat \<Rightarrow> step list" where
  "churn k = concat (map (\<lambda>i. [StCreateSession 0 True, StSessionClose (Suc i)]) [0..<k])"

definition wrapped_history :: "step list" where
  "wrapped_history =
     StCreateSession 0 True # churn (2 ^ 64 - 1) @ [StCreateSession 0 True, StInsert 0 0]"

definition wrapped_sys :: Sys where
  "wrapped_sys = fold apply_step wrapped_history (start zero_ClientConfig)"

text \<open>
  The state of the fourth history after \<open>k\<close> rounds: \<open>k + 1\<close> sessions created, the first
  one open and alone in the registry, the pool empty.
\<close>

definition churned :: "nat \<Rightarrow> Sys \<Rightarrow> bool" where
  "churned k s =
     (sessionCounter (client s) = of_nat (Suc k) \<and>
      length (heap (client s)) = Suc k \<and>
      sessions (client s) = [(1, 0)] \<and>
      idleSession (client s) = [] \<and>
      seq (heap (client s) ! 0) = 1 \<and>
      \<not> closed (heap (client s) ! 0) \<and>
      closing s = [])"

section \<open>The jittered lifetime\<close>

text \<open>
  \<open>int64(session.seq) % (jitterRange * 2)\<close> cannot divide by zero: the jitter is positive
  when the remainder is taken, and twice a positive \<open>int64\<close> is not zero modulo \<open>2^64\<close>.
\<close>

lemma sint_word_of_int_64:
  "- (2 ^ 63) \<le> k \<Longrightarrow> k < 2 ^ 63 \<Longrightarrow> sint (word_of_int k :: 64 word) = k"
  by (simp add: sint_sbintrunc' signed_take_bit_int_eq_self)

lemma sint_eq_uint_64:
  fixes q :: "64 word"
  assumes "uint q < 2 ^ 63"
  shows "sint q = uint q"
proof -
  have "(- (2 ^ 63) :: int) \<le> 0" by simp
  also have "0 \<le> uint q" by simp
  finally have "sint (word_of_int (uint q) :: 64 word) = uint q"
    using assms by (rule sint_word_of_int_64)
  then show ?thesis by simp
qed

lemma sint_double:
  fixes j :: "64 word"
  assumes "0 <s j" and "sint j < 2 ^ 62"
  shows "sint (j * 2) = sint j * 2"
proof -
  have pos: "0 < sint j" using assms(1) by (simp add: word_sless_alt)
  have "j * 2 = word_of_int (sint j * 2)" by simp
  moreover have "sint (word_of_int (sint j * 2) :: 64 word) = sint j * 2"
    using pos assms(2) by (intro sint_word_of_int_64) simp_all
  ultimately show ?thesis by simp
qed

lemma rem_i64_jitter:
  fixes j q :: "64 word"
  assumes "0 <s j" and "sint j < 2 ^ 62" and "uint q < 2 ^ 63"
  shows "rem_i64 q (j * 2) = word_of_int (uint q mod (2 * sint j))"
proof -
  have pos: "0 < sint j" using assms(1) by (simp add: word_sless_alt)
  have "sint q smod sint (j * 2) = uint q smod (sint j * 2)"
    using assms by (simp add: sint_double sint_eq_uint_64)
  also have "\<dots> = uint q mod (sint j * 2)"
    using pos by (simp add: smod_mod_positive)
  finally show ?thesis by (simp add: rem_i64_def mult.commute)
qed

lemma jitter_modulus_nonzero:
  fixes j :: "64 word"
  assumes "0 <s j"
  shows "j * 2 \<noteq> 0"
proof
  assume z: "j * 2 = 0"
  have pos: "0 < sint j" using assms by (simp add: word_sless_alt)
  have lt: "sint j < 2 ^ 63" using sint_less [of j] by simp
  have "uint j = take_bit 64 (sint j)" by (simp add: uint_sint)
  also have "\<dots> = sint j" using pos lt by (intro take_bit_int_eq_self) simp_all
  finally have u: "uint j = sint j" .
  have "uint (j * 2) = uint j * 2 mod 2 ^ 64" by (simp add: uint_word_ariths)
  also have "\<dots> = uint j * 2" using pos lt u by simp
  finally show False using z pos u by simp
qed

lemma sessionLifetime_cong:
  "maxConnectionLifetime c' = maxConnectionLifetime c \<Longrightarrow>
   connectionLifetimeJitter c' = connectionLifetimeJitter c \<Longrightarrow> seq s' = seq s \<Longrightarrow>
   sessionLifetime c' s' = sessionLifetime c s"
  by (simp add: sessionLifetime_def)

text \<open>
  What the code computes inside the range of \<open>int64\<close>: the remainder is taken on the
  nanosecond counts, the offset is below twice the jitter, and the expiry instant depends
  on nothing but the sequence number, the creation time and the two configuration values.
\<close>

lemma sessionLifetime_in_int64_range:
  assumes jpos: "0 <s connectionLifetimeJitter c"
    and jsmall: "sint (connectionLifetimeJitter c) < 2 ^ 62"
    and qsmall: "uint (seq s) < 2 ^ 63"
    and mpos: "0 <s maxConnectionLifetime c"
    and nowrap: "sint (maxConnectionLifetime c) - sint (connectionLifetimeJitter c)
                 + uint (seq s) mod (2 * sint (connectionLifetimeJitter c)) < 2 ^ 63"
  shows "sint (sessionLifetime c s)
           = sint (maxConnectionLifetime c) - sint (connectionLifetimeJitter c)
             + uint (seq s) mod (2 * sint (connectionLifetimeJitter c))
         \<and> - sint (connectionLifetimeJitter c)
             \<le> sint (sessionLifetime c s) - sint (maxConnectionLifetime c)
         \<and> sint (sessionLifetime c s) - sint (maxConnectionLifetime c)
             < sint (connectionLifetimeJitter c)
         \<and> (\<forall>c' s'. maxConnectionLifetime c' = maxConnectionLifetime c \<and>
                connectionLifetimeJitter c' = connectionLifetimeJitter c \<and>
                seq s' = seq s \<and> createdAt s' = createdAt s \<longrightarrow>
                Time_Add (createdAt s') (sessionLifetime c' s')
                  = Time_Add (createdAt s) (sessionLifetime c s))"
proof -
  let ?m = "sint (maxConnectionLifetime c)"
  let ?j = "sint (connectionLifetimeJitter c)"
  let ?off = "uint (seq s) mod (2 * ?j)"
  have pos: "0 < ?j" using jpos by (simp add: word_sless_alt)
  have mp: "0 < ?m" using mpos by (simp add: word_sless_alt)
  have off0: "0 \<le> ?off" using pos by simp
  have off1: "?off < 2 * ?j" using pos by simp
  have p: "(2::int) ^ 63 = 2 * 2 ^ 62" by simp
  have p0: "(0::int) < 2 ^ 62" by simp
  have lo: "- (2 ^ 63) \<le> ?m - ?j + ?off" using mp off0 jsmall p p0 by linarith
  have "sessionLifetime c s
          = maxConnectionLifetime c - connectionLifetimeJitter c + word_of_int ?off"
    using jpos jsmall qsmall by (simp add: sessionLifetime_def rem_i64_jitter)
  also have "\<dots> = word_of_int (?m - ?j + ?off)" by simp
  finally have "sint (sessionLifetime c s) = sint (word_of_int (?m - ?j + ?off) :: 64 word)"
    by (rule arg_cong)
  also have "\<dots> = ?m - ?j + ?off" using lo nowrap by (rule sint_word_of_int_64)
  finally have eq: "sint (sessionLifetime c s) = ?m - ?j + ?off" .
  have lower: "- ?j \<le> sint (sessionLifetime c s) - ?m" using eq off0 by linarith
  have upper: "sint (sessionLifetime c s) - ?m < ?j" using eq off1 by linarith
  have det: "\<forall>c' s'. maxConnectionLifetime c' = maxConnectionLifetime c \<and>
                connectionLifetimeJitter c' = connectionLifetimeJitter c \<and>
                seq s' = seq s \<and> createdAt s' = createdAt s \<longrightarrow>
                Time_Add (createdAt s') (sessionLifetime c' s')
                  = Time_Add (createdAt s) (sessionLifetime c s)"
  proof (intro allI impI)
    fix c' :: Client and s' :: Session
    assume h: "maxConnectionLifetime c' = maxConnectionLifetime c \<and>
                connectionLifetimeJitter c' = connectionLifetimeJitter c \<and>
                seq s' = seq s \<and> createdAt s' = createdAt s"
    then have "sessionLifetime c' s' = sessionLifetime c s"
      by (intro sessionLifetime_cong) simp_all
    then show "Time_Add (createdAt s') (sessionLifetime c' s')
                  = Time_Add (createdAt s) (sessionLifetime c s)"
      using h by simp
  qed
  from eq lower upper det show ?thesis by blast
qed

text \<open>
  C4 fails on the code. The spec takes the offset \<open>seq mod (2 * jitter)\<close> on the scale of
  the jitter: with a lifetime of 100s and a jitter of 10s, the session with \<open>seq = 1\<close>
  lives 91s and the one with \<open>seq = 2\<close> lives 92s. The code converts \<open>seq\<close> to a
  duration of that many nanoseconds: the two sessions live 90s and one, respectively two,
  nanoseconds, and the first is already expired at the age of 90.5s. With a lifetime of
  one hour and a jitter of fifteen minutes, the session with \<open>seq = 1000\<close> lives 45
  minutes and a microsecond: the lifetimes are not spread over the window of the jitter.
\<close>

theorem sessionLifetime_jitter_in_nanoseconds:
  "spec_effective_seconds 100 10 1 = 91
   \<and> sint (seconds (spec_effective_seconds 100 10 1)) = 91000000000
   \<and> sint (sessionLifetime (lifetime_client (seconds 100) (seconds 10)) (numbered_session 1))
       = 90000000001
   \<and> spec_effective_seconds 100 10 2 = 92
   \<and> sint (sessionLifetime (lifetime_client (seconds 100) (seconds 10)) (numbered_session 2))
       = 90000000002
   \<and> ageExpired (lifetime_client (seconds 100) (seconds 10)) 90500000000 (numbered_session 1)
   \<and> spec_effective_seconds 3600 900 1000 = 3700
   \<and> sint (sessionLifetime (lifetime_client (seconds 3600) (seconds 900))
             (numbered_session 1000)) = 2700000001000"
  by code_simp

section \<open>Shutdown\<close>

text \<open>No operation of the client ever resets the cancellation.\<close>

lemma die_Session_Close: "die (Session_Close c a) = die c"
  by (simp add: Session_Close_def session_dieHook_def)

lemma die_close_all: "die (close_all as c) = die c"
  unfolding close_all_def by (induction as arbitrary: c) (simp_all add: die_Session_Close)

lemma die_cleanup_visit: "die (cl (cleanup_visit now e st)) = die (cl st)"
  by (simp add: cleanup_visit_def Let_def)

lemma die_cleanup_fold: "die (cl (fold (cleanup_visit now) es st)) = die (cl st)"
  by (induction es arbitrary: st) (simp_all add: die_cleanup_visit)

lemma die_cleanup: "die (fst (cleanup now c)) = die c"
  by (simp add: cleanup_def Let_def die_close_all cleanup_scan_def die_cleanup_fold cleanup_init_def)

lemma die_createSession: "die (fst (createSession now dialOK c)) = die c"
  by (simp add: createSession_def Let_def)

lemma die_proactive_creator: "die (proactive_creator t1 t2 dialOK c) = die c"
  by (simp add: proactive_creator_def createSession_def Let_def)

lemma die_stream_dieHook: "die (stream_dieHook now a c) = die c"
  by (simp add: stream_dieHook_def die_Session_Close)

lemma CreateStream_cancelled: "die c \<Longrightarrow> CreateStream now dialOK openOK c = (c, Inl ErrClosedPipe)"
  by (simp add: CreateStream_def)

lemma die_Close: "die (Close c)"
  by (simp add: Close_def Close_snapshot_def Let_def die_close_all)

lemma die_apply_event: "die c \<Longrightarrow> die (apply_event ev c)"
  by (cases ev) (simp_all add: CreateStream_cancelled die_stream_dieHook die_Session_Close
      die_cleanup die_proactive_creator die_Close)

lemma die_fold_events: "die c \<Longrightarrow> die (fold apply_event evs c)"
  by (induction evs arbitrary: c) (simp_all add: die_apply_event)

text \<open>
  C8. Once \<open>Close\<close> has been called, whatever happens to the client afterwards, a call of
  \<open>CreateStream\<close> returns the pipe-closed error and leaves the client as it is: the idle
  pool is not popped, and no session is created.
\<close>

theorem CreateStream_after_Close:
  "CreateStream now dialOK openOK (fold apply_event evs (Close c))
     = (fold apply_event evs (Close c), Inl ErrClosedPipe)"
  by (rule CreateStream_cancelled) (rule die_fold_events, rule die_Close)

section \<open>The merge of the configuration layers\<close>

text \<open>What each layer of \<open>NewAnyTLS\<close> does to each field.\<close>

lemma override_EnsureIdleSession:
  "cfg_EnsureIdleSession (apply_override ov t)
     = (case ov of
          None \<Rightarrow> cfg_EnsureIdleSession t
        | Some override \<Rightarrow>
            (case ovr_EnsureIdleSession override of None \<Rightarrow> cfg_EnsureIdleSession t | Some v \<Rightarrow> v))"
  by (simp add: apply_override_def Let_def option.case_distrib [of cfg_EnsureIdleSession]
      option.case_eq_if)

lemma override_MinIdleSession:
  "cfg_MinIdleSession (apply_override ov t)
     = (case ov of
          None \<Rightarrow> cfg_MinIdleSession t
        | Some override \<Rightarrow>
            (case ovr_MinIdleSession override of None \<Rightarrow> cfg_MinIdleSession t | Some v \<Rightarrow> v))"
  by (simp add: apply_override_def Let_def option.case_distrib [of cfg_MinIdleSession]
      option.case_eq_if)

lemma override_MinIdleSessionForAge:
  "cfg_MinIdleSessionForAge (apply_override ov t)
     = (case ov of
          None \<Rightarrow> cfg_MinIdleSessionForAge t
        | Some override \<Rightarrow>
            (case ovr_MinIdleSessionForAge override of None \<Rightarrow> cfg_MinIdleSessionForAge t | Some v \<Rightarrow> v))"
  by (simp add: apply_override_def Let_def option.case_distrib [of cfg_MinIdleSessionForAge]
      option.case_eq_if)

lemma override_EnsureIdleSessionCreateRate:
  "cfg_EnsureIdleSessionCreateRate (apply_override ov t)
     = (case ov of
          None \<Rightarrow> cfg_EnsureIdleSessionCreateRate t
        | Some override \<Rightarrow>
            (case ovr_EnsureIdleSessionCreateRate override of None \<Rightarrow> cfg_EnsureIdleSessionCreateRate t | Some v \<Rightarrow> v))"
  by (simp add: apply_override_def Let_def option.case_distrib [of cfg_EnsureIdleSessionCreateRate]
      option.case_eq_if)

lemma override_MaxConnectionLifetime:
  "cfg_MaxConnectionLifetime (apply_override ov t)
     = (case ov of
          None \<Rightarrow> cfg_MaxConnectionLifetime t
        | Some override \<Rightarrow>
            (case ovr_MaxConnectionLifetime override of None \<Rightarrow> cfg_MaxConnectionLifetime t | Some v \<Rightarrow> seconds v))"
  by (simp add: apply_override_def Let_def option.case_distrib [of cfg_MaxConnectionLifetime]
      option.case_eq_if)

lemma override_ConnectionLifetimeJitter:
  "cfg_ConnectionLifetimeJitter (apply_override ov t)
     = (case ov of
          None \<Rightarrow> cfg_ConnectionLifetimeJitter t
        | Some override \<Rightarrow>
            (case ovr_ConnectionLifetimeJitter override of None \<Rightarrow> cfg_ConnectionLifetimeJitter t | Some v \<Rightarrow> seconds v))"
  by (simp add: apply_override_def Let_def option.case_distrib [of cfg_ConnectionLifetimeJitter]
      option.case_eq_if)

lemma override_IdleSessionTimeout:
  "cfg_IdleSessionTimeout (apply_override ov t)
     = (case ov of
          None \<Rightarrow> cfg_IdleSessionTimeout t
        | Some override \<Rightarrow>
            (case ovr_IdleSessionTimeout override of None \<Rightarrow> cfg_IdleSessionTimeout t | Some v \<Rightarrow> seconds v))"
  by (simp add: apply_override_def Let_def option.case_distrib [of cfg_IdleSessionTimeout]
      option.case_eq_if)

lemma override_IdleSessionCheckInterval:
  "cfg_IdleSessionCheckInterval (apply_override ov t)
     = (case ov of
          None \<Rightarrow> cfg_IdleSessionCheckInterval t
        | Some override \<Rightarrow>
            (case ovr_IdleSessionCheckInterval override of None \<Rightarrow> cfg_IdleSessionCheckInterval t | Some v \<Rightarrow> seconds v))"
  by (simp add: apply_override_def Let_def option.case_distrib [of cfg_IdleSessionCheckInterval]
      option.case_eq_if)

lemma legacy_EnsureIdleSession:
  "cfg_EnsureIdleSession (apply_legacy option t) = cfg_EnsureIdleSession t"
  by (simp add: apply_legacy_def Let_def)

lemma legacy_MinIdleSession:
  "cfg_MinIdleSession (apply_legacy option t)
     = (if 0 < opt_MinIdleSession option then opt_MinIdleSession option else cfg_MinIdleSession t)"
  by (simp add: apply_legacy_def Let_def)

lemma legacy_MinIdleSessionForAge:
  "cfg_MinIdleSessionForAge (apply_legacy option t) = cfg_MinIdleSessionForAge t"
  by (simp add: apply_legacy_def Let_def)

lemma legacy_EnsureIdleSessionCreateRate:
  "cfg_EnsureIdleSessionCreateRate (apply_legacy option t) = cfg_EnsureIdleSessionCreateRate t"
  by (simp add: apply_legacy_def Let_def)

lemma legacy_MaxConnectionLifetime:
  "cfg_MaxConnectionLifetime (apply_legacy option t) = cfg_MaxConnectionLifetime t"
  by (simp add: apply_legacy_def Let_def)

lemma legacy_ConnectionLifetimeJitter:
  "cfg_ConnectionLifetimeJitter (apply_legacy option t) = cfg_ConnectionLifetimeJitter t"
  by (simp add: apply_legacy_def Let_def)

lemma legacy_IdleSessionTimeout:
  "cfg_IdleSessionTimeout (apply_legacy option t)
     = (if 0 < opt_IdleSessionTimeout option then seconds (opt_IdleSessionTimeout option) else cfg_IdleSessionTimeout t)"
  by (simp add: apply_legacy_def Let_def)

lemma legacy_IdleSessionCheckInterval:
  "cfg_IdleSessionCheckInterval (apply_legacy option t)
     = (if 0 < opt_IdleSessionCheckInterval option then seconds (opt_IdleSessionCheckInterval option) else cfg_IdleSessionCheckInterval t)"
  by (simp add: apply_legacy_def Let_def)

lemma global_EnsureIdleSession:
  "cfg_EnsureIdleSession (apply_global globalCfg t)
     = (case globalCfg of None \<Rightarrow> cfg_EnsureIdleSession t | Some g \<Rightarrow> glb_EnsureIdleSession g)"
  by (simp add: apply_global_def split: option.splits)

lemma global_MinIdleSession:
  "cfg_MinIdleSession (apply_global globalCfg t)
     = (case globalCfg of None \<Rightarrow> cfg_MinIdleSession t | Some g \<Rightarrow> glb_MinIdleSession g)"
  by (simp add: apply_global_def split: option.splits)

lemma global_MinIdleSessionForAge:
  "cfg_MinIdleSessionForAge (apply_global globalCfg t)
     = (case globalCfg of None \<Rightarrow> cfg_MinIdleSessionForAge t | Some g \<Rightarrow> glb_MinIdleSessionForAge g)"
  by (simp add: apply_global_def split: option.splits)

lemma global_EnsureIdleSessionCreateRate:
  "cfg_EnsureIdleSessionCreateRate (apply_global globalCfg t)
     = (case globalCfg of None \<Rightarrow> cfg_EnsureIdleSessionCreateRate t | Some g \<Rightarrow> glb_EnsureIdleSessionCreateRate g)"
  by (simp add: apply_global_def split: option.splits)

lemma global_MaxConnectionLifetime:
  "cfg_MaxConnectionLifetime (apply_global globalCfg t)
     = (case globalCfg of None \<Rightarrow> cfg_MaxConnectionLifetime t | Some g \<Rightarrow> glb_MaxConnectionLifetime g)"
  by (simp add: apply_global_def split: option.splits)

lemma global_ConnectionLifetimeJitter:
  "cfg_ConnectionLifetimeJitter (apply_global globalCfg t)
     = (case globalCfg of None \<Rightarrow> cfg_ConnectionLifetimeJitter t | Some g \<Rightarrow> glb_ConnectionLifetimeJitter g)"
  by (simp add: apply_global_def split: option.splits)

lemma global_IdleSessionTimeout:
  "cfg_IdleSessionTimeout (apply_global globalCfg t)
     = (case globalCfg of None \<Rightarrow> cfg_IdleSessionTimeout t | Some g \<Rightarrow> glb_IdleSessionTimeout g)"
  by (simp add: apply_global_def split: option.splits)

lemma global_IdleSessionCheckInterval:
  "cfg_IdleSessionCheckInterval (apply_global globalCfg t)
     = (case globalCfg of None \<Rightarrow> cfg_IdleSessionCheckInterval t | Some g \<Rightarrow> glb_IdleSessionCheckInterval g)"
  by (simp add: apply_global_def split: option.splits)

lemma merged_EnsureIdleSession:
  "cfg_EnsureIdleSession (NewAnyTLS_tOption globalCfg option)
     = priority_merge (override_field option ovr_EnsureIdleSession)
         None
         (global_field globalCfg glb_EnsureIdleSession) 0"
  by (simp add: NewAnyTLS_tOption_def override_EnsureIdleSession legacy_EnsureIdleSession global_EnsureIdleSession
      zero_ClientConfig_def priority_merge_def override_field_def legacy_field_def
      global_field_def split: option.splits)

lemma merged_MinIdleSession:
  "cfg_MinIdleSession (NewAnyTLS_tOption globalCfg option)
     = priority_merge (override_field option ovr_MinIdleSession)
         (legacy_field (opt_MinIdleSession option))
         (global_field globalCfg glb_MinIdleSession) 0"
  by (simp add: NewAnyTLS_tOption_def override_MinIdleSession legacy_MinIdleSession global_MinIdleSession
      zero_ClientConfig_def priority_merge_def override_field_def legacy_field_def
      global_field_def split: option.splits)

lemma merged_MinIdleSessionForAge:
  "cfg_MinIdleSessionForAge (NewAnyTLS_tOption globalCfg option)
     = priority_merge (override_field option ovr_MinIdleSessionForAge)
         None
         (global_field globalCfg glb_MinIdleSessionForAge) 0"
  by (simp add: NewAnyTLS_tOption_def override_MinIdleSessionForAge legacy_MinIdleSessionForAge global_MinIdleSessionForAge
      zero_ClientConfig_def priority_merge_def override_field_def legacy_field_def
      global_field_def split: option.splits)

lemma merged_EnsureIdleSessionCreateRate:
  "cfg_EnsureIdleSessionCreateRate (NewAnyTLS_tOption globalCfg option)
     = priority_merge (override_field option ovr_EnsureIdleSessionCreateRate)
         None
         (global_field globalCfg glb_EnsureIdleSessionCreateRate) 0"
  by (simp add: NewAnyTLS_tOption_def override_EnsureIdleSessionCreateRate legacy_EnsureIdleSessionCreateRate global_EnsureIdleSessionCreateRate
      zero_ClientConfig_def priority_merge_def override_field_def legacy_field_def
      global_field_def split: option.splits)

lemma merged_MaxConnectionLifetime:
  "cfg_MaxConnectionLifetime (NewAnyTLS_tOption globalCfg option)
     = priority_merge (map_option seconds (override_field option ovr_MaxConnectionLifetime))
         None
         (global_field globalCfg glb_MaxConnectionLifetime) 0"
  by (simp add: NewAnyTLS_tOption_def override_MaxConnectionLifetime legacy_MaxConnectionLifetime global_MaxConnectionLifetime
      zero_ClientConfig_def priority_merge_def override_field_def legacy_field_def
      global_field_def split: option.splits)

lemma merged_ConnectionLifetimeJitter:
  "cfg_ConnectionLifetimeJitter (NewAnyTLS_tOption globalCfg option)
     = priority_merge (map_option seconds (override_field option ovr_ConnectionLifetimeJitter))
         None
         (global_field globalCfg glb_ConnectionLifetimeJitter) 0"
  by (simp add: NewAnyTLS_tOption_def override_ConnectionLifetimeJitter legacy_ConnectionLifetimeJitter global_ConnectionLifetimeJitter
      zero_ClientConfig_def priority_merge_def override_field_def legacy_field_def
      global_field_def split: option.splits)

lemma merged_IdleSessionTimeout:
  "cfg_IdleSessionTimeout (NewAnyTLS_tOption globalCfg option)
     = priority_merge (map_option seconds (override_field option ovr_IdleSessionTimeout))
         (map_option seconds (legacy_field (opt_IdleSessionTimeout option)))
         (global_field globalCfg glb_IdleSessionTimeout) 0"
  by (simp add: NewAnyTLS_tOption_def override_IdleSessionTimeout legacy_IdleSessionTimeout global_IdleSessionTimeout
      zero_ClientConfig_def priority_merge_def override_field_def legacy_field_def
      global_field_def split: option.splits)

lemma merged_IdleSessionCheckInterval:
  "cfg_IdleSessionCheckInterval (NewAnyTLS_tOption globalCfg option)
     = priority_merge (map_option seconds (override_field option ovr_IdleSessionCheckInterval))
         (map_option seconds (legacy_field (opt_IdleSessionCheckInterval option)))
         (global_field globalCfg glb_IdleSessionCheckInterval) 0"
  by (simp add: NewAnyTLS_tOption_def override_IdleSessionCheckInterval legacy_IdleSessionCheckInterval global_IdleSessionCheckInterval
      zero_ClientConfig_def priority_merge_def override_field_def legacy_field_def
      global_field_def split: option.splits)

text \<open>
  C9. Every field of the effective configuration is resolved by the same priority: a
  non-null field of the session override wins; otherwise the legacy per-proxy field wins,
  for the three fields that have one and only when it is set greater than 0; otherwise the
  global value is used, and the zero value when there is no global section. Durations of
  the override and of the legacy fields are taken in seconds.
\<close>

theorem NewAnyTLS_tOption_priority:
  "cfg_EnsureIdleSession (NewAnyTLS_tOption globalCfg option)
     = priority_merge (override_field option ovr_EnsureIdleSession)
         None
         (global_field globalCfg glb_EnsureIdleSession) 0
   \<and> cfg_MinIdleSession (NewAnyTLS_tOption globalCfg option)
     = priority_merge (override_field option ovr_MinIdleSession)
         (legacy_field (opt_MinIdleSession option))
         (global_field globalCfg glb_MinIdleSession) 0
   \<and> cfg_MinIdleSessionForAge (NewAnyTLS_tOption globalCfg option)
     = priority_merge (override_field option ovr_MinIdleSessionForAge)
         None
         (global_field globalCfg glb_MinIdleSessionForAge) 0
   \<and> cfg_EnsureIdleSessionCreateRate (NewAnyTLS_tOption globalCfg option)
     = priority_merge (override_field option ovr_EnsureIdleSessionCreateRate)
         None
         (global_field globalCfg glb_EnsureIdleSessionCreateRate) 0
   \<and> cfg_MaxConnectionLifetime (NewAnyTLS_tOption globalCfg option)
     = priority_merge (map_option seconds (override_field option ovr_MaxConnectionLifetime))
         None
         (global_field globalCfg glb_MaxConnectionLifetime) 0
   \<and> cfg_ConnectionLifetimeJitter (NewAnyTLS_tOption globalCfg option)
     = priority_merge (map_option seconds (override_field option ovr_ConnectionLifetimeJitter))
         None
         (global_field globalCfg glb_ConnectionLifetimeJitter) 0
   \<and> cfg_IdleSessionTimeout (NewAnyTLS_tOption globalCfg option)
     = priority_merge (map_option seconds (override_field option ovr_IdleSessionTimeout))
         (map_option seconds (legacy_field (opt_IdleSessionTimeout option)))
         (global_field globalCfg glb_IdleSessionTimeout) 0
   \<and> cfg_IdleSessionCheckInterval (NewAnyTLS_tOption globalCfg option)
     = priority_merge (map_option seconds (override_field option ovr_IdleSessionCheckInterval))
         (map_option seconds (legacy_field (opt_IdleSessionCheckInterval option)))
         (global_field globalCfg glb_IdleSessionCheckInterval) 0"
  by (intro conjI)
    (rule merged_EnsureIdleSession,
     rule merged_MinIdleSession,
     rule merged_MinIdleSessionForAge,
     rule merged_EnsureIdleSessionCreateRate,
     rule merged_MaxConnectionLifetime,
     rule merged_ConnectionLifetimeJitter,
     rule merged_IdleSessionTimeout,
     rule merged_IdleSessionCheckInterval)

section \<open>The jitter limit\<close>

lemma sint_seconds:
  assumes "0 \<le> n" and "n \<le> 9223372036"
  shows "sint (seconds n) = n * 1000000000"
proof -
  have "seconds n = word_of_int (n * 1000000000)" by (simp add: seconds_def Second_def)
  moreover have "sint (word_of_int (n * 1000000000) :: 64 word) = n * 1000000000"
    using assms by (intro sint_word_of_int_64) simp_all
  ultimately show ?thesis by simp
qed

lemma NewClient_jitter:
  "connectionLifetimeJitter (NewClient config) = cfg_ConnectionLifetimeJitter config"
  by (simp add: NewClient_def)

lemma NewClient_lifetime:
  "maxConnectionLifetime (NewClient config) = cfg_MaxConnectionLifetime config"
  by (simp add: NewClient_def)

text \<open>
  C5, as the code has it. Neither the merge nor \<open>NewClient\<close> checks the jitter against
  the lifetime: the client gets both values as the merge resolves them, field by field
  (the override in seconds when it is set, else the global value, else zero). The limit
  \<open>connection_lifetime_jitter \<le> max_connection_lifetime\<close> therefore holds for the
  effective configuration when both values come from one layer that obeys it: from the
  global section when the override sets neither field, or from the override when it sets
  both, with \<open>0 \<le> jitter \<le> lifetime\<close> in seconds and the lifetime within the range of a
  duration.
\<close>

theorem NewAnyTLS_jitter_limit_unchecked:
  "connectionLifetimeJitter (NewAnyTLS_client globalCfg option)
     = priority_merge (map_option seconds (override_field option ovr_ConnectionLifetimeJitter))
         None (global_field globalCfg glb_ConnectionLifetimeJitter) 0
   \<and> maxConnectionLifetime (NewAnyTLS_client globalCfg option)
     = priority_merge (map_option seconds (override_field option ovr_MaxConnectionLifetime))
         None (global_field globalCfg glb_MaxConnectionLifetime) 0
   \<and> (override_field option ovr_ConnectionLifetimeJitter = None \<and>
        override_field option ovr_MaxConnectionLifetime = None \<and>
        (\<forall>g. globalCfg = Some g \<longrightarrow>
               glb_ConnectionLifetimeJitter g \<le>s glb_MaxConnectionLifetime g) \<longrightarrow>
        connectionLifetimeJitter (NewAnyTLS_client globalCfg option)
          \<le>s maxConnectionLifetime (NewAnyTLS_client globalCfg option))
   \<and> (\<forall>j m. override_field option ovr_ConnectionLifetimeJitter = Some j \<and>
             override_field option ovr_MaxConnectionLifetime = Some m \<and>
             0 \<le> j \<and> j \<le> m \<and> m \<le> 9223372036 \<longrightarrow>
        connectionLifetimeJitter (NewAnyTLS_client globalCfg option)
          \<le>s maxConnectionLifetime (NewAnyTLS_client globalCfg option))"
proof -
  let ?c = "NewAnyTLS_client globalCfg option"
  have j: "connectionLifetimeJitter ?c
     = priority_merge (map_option seconds (override_field option ovr_ConnectionLifetimeJitter))
         None (global_field globalCfg glb_ConnectionLifetimeJitter) 0"
    by (simp add: NewAnyTLS_client_def NewClient_jitter merged_ConnectionLifetimeJitter)
  have m: "maxConnectionLifetime ?c
     = priority_merge (map_option seconds (override_field option ovr_MaxConnectionLifetime))
         None (global_field globalCfg glb_MaxConnectionLifetime) 0"
    by (simp add: NewAnyTLS_client_def NewClient_lifetime merged_MaxConnectionLifetime)
  have a: "override_field option ovr_ConnectionLifetimeJitter = None \<and>
        override_field option ovr_MaxConnectionLifetime = None \<and>
        (\<forall>g. globalCfg = Some g \<longrightarrow>
               glb_ConnectionLifetimeJitter g \<le>s glb_MaxConnectionLifetime g) \<longrightarrow>
        connectionLifetimeJitter ?c \<le>s maxConnectionLifetime ?c"
    unfolding j m by (cases globalCfg) (simp_all add: priority_merge_def global_field_def)
  have b: "\<forall>j m. override_field option ovr_ConnectionLifetimeJitter = Some j \<and>
             override_field option ovr_MaxConnectionLifetime = Some m \<and>
             0 \<le> j \<and> j \<le> m \<and> m \<le> 9223372036 \<longrightarrow>
        connectionLifetimeJitter ?c \<le>s maxConnectionLifetime ?c"
    unfolding j m by (simp add: priority_merge_def word_sle_eq sint_seconds)
  from j m a b show ?thesis by blast
qed

theorem NewAnyTLS_jitter_limit_unchecked_witness:
  "connectionLifetimeJitter (NewAnyTLS_client (Some hourly_global) plain_option)
     \<le>s maxConnectionLifetime (NewAnyTLS_client (Some hourly_global) plain_option)"
proof -
  have h: "override_field plain_option ovr_ConnectionLifetimeJitter = None \<and>
        override_field plain_option ovr_MaxConnectionLifetime = None \<and>
        (\<forall>g. Some hourly_global = Some g \<longrightarrow>
               glb_ConnectionLifetimeJitter g \<le>s glb_MaxConnectionLifetime g)"
    by (simp add: override_field_def plain_option_def hourly_global_def seconds_def Second_def)
  from NewAnyTLS_jitter_limit_unchecked [of "Some hourly_global" plain_option] h
  show ?thesis by blast
qed

text \<open>
  The claim as stated fails: a global section with a lifetime of one hour and a jitter of
  thirty minutes, and an override that only shortens the lifetime to ten minutes, give a
  client whose jitter exceeds its lifetime.
\<close>

theorem NewAnyTLS_jitter_limit_counterexample:
  "\<not> connectionLifetimeJitter (NewAnyTLS_client (Some hourly_global) short_lifetime_option)
       \<le>s maxConnectionLifetime (NewAnyTLS_client (Some hourly_global) short_lifetime_option)"
  by (simp add: NewAnyTLS_client_def NewClient_def merged_ConnectionLifetimeJitter
      merged_MaxConnectionLifetime priority_merge_def override_field_def global_field_def
      short_lifetime_option_def plain_option_def empty_override_def hourly_global_def
      seconds_def Second_def)

section \<open>Proactive creation after shutdown\<close>

text \<open>
  C1 fails on the code. A client that keeps one idle session ready starts one creator at
  its first tick. When \<open>Close\<close> is called before the creator's dial completes, the creator
  still registers its session and inserts it into the idle pool: the client is cancelled,
  and the session sits in the pool, open. The stream hook re-checks the cancellation
  before it pools a session; the creator does not.
\<close>

theorem proactive_creator_after_Close_pools:
  "snd (cleanup 1000 (NewClient proactive_config)) = 1
   \<and> die (Close (fst (cleanup 1000 (NewClient proactive_config))))
   \<and> die late_creator_client
   \<and> idleSession late_creator_client = [(MaxUint64 - 1, 0)]
   \<and> sessions late_creator_client = [(1, 0)]
   \<and> \<not> closed (heap late_creator_client ! 0)"
  by code_simp

section \<open>The scan of the idle pool\<close>

text \<open>What one iteration of the loop does to each local variable and to the client.\<close>

lemma visit_idleSessionsToClose:
  "idleSessionsToClose (cleanup_visit now e st)
     = (if shouldCloseIdle now (snd e) st then idleSessionsToClose st @ [snd e]
        else idleSessionsToClose st)"
  by (simp add: cleanup_visit_def Let_def shouldCloseIdle_def shouldCloseAge_def ageChecked_def)

lemma visit_ageSessionsToClose:
  "ageSessionsToClose (cleanup_visit now e st)
     = (if shouldCloseAge now (snd e) st then ageSessionsToClose st @ [snd e]
        else ageSessionsToClose st)"
  by (simp add: cleanup_visit_def Let_def shouldCloseIdle_def shouldCloseAge_def ageChecked_def)

lemma visit_idleActiveCount:
  "idleActiveCount (cleanup_visit now e st)
     = (if shouldCloseIdle now (snd e) st then idleActiveCount st else idleActiveCount st + 1)"
  by (simp add: cleanup_visit_def Let_def shouldCloseIdle_def shouldCloseAge_def ageChecked_def)

lemma visit_ageActiveCount:
  "ageActiveCount (cleanup_visit now e st)
     = (if ageChecked now (snd e) st \<and> \<not> shouldCloseAge now (snd e) st
        then ageActiveCount st + 1 else ageActiveCount st)"
  by (simp add: cleanup_visit_def Let_def shouldCloseIdle_def shouldCloseAge_def ageChecked_def)

lemma visit_heap:
  "heap (cl (cleanup_visit now e st))
     = (if idleExpired (cl st) now (heap (cl st) ! snd e) \<and> \<not> shouldCloseIdle now (snd e) st
        then (heap (cl st))[snd e := (heap (cl st) ! snd e)\<lparr>idleSince := now\<rparr>]
        else heap (cl st))"
  by (simp add: cleanup_visit_def Let_def shouldCloseIdle_def shouldCloseAge_def ageChecked_def)

lemma visit_idleSession:
  "idleSession (cl (cleanup_visit now e st))
     = (if shouldCloseIdle now (snd e) st \<or> shouldCloseAge now (snd e) st
        then skiplist_Remove (fst e) (idleSession (cl st)) else idleSession (cl st))"
  by (simp add: cleanup_visit_def Let_def shouldCloseIdle_def shouldCloseAge_def ageChecked_def)

lemma visit_config:
  "idleSessionTimeout (cl (cleanup_visit now e st)) = idleSessionTimeout (cl st)"
  "minIdleSession (cl (cleanup_visit now e st)) = minIdleSession (cl st)"
  "minIdleSessionForAge (cl (cleanup_visit now e st)) = minIdleSessionForAge (cl st)"
  "maxConnectionLifetime (cl (cleanup_visit now e st)) = maxConnectionLifetime (cl st)"
  "connectionLifetimeJitter (cl (cleanup_visit now e st)) = connectionLifetimeJitter (cl st)"
  "ensureIdleSession (cl (cleanup_visit now e st)) = ensureIdleSession (cl st)"
  "ensureIdleSessionCreateRate (cl (cleanup_visit now e st)) = ensureIdleSessionCreateRate (cl st)"
  "sessions (cl (cleanup_visit now e st)) = sessions (cl st)"
  "sessionCounter (cl (cleanup_visit now e st)) = sessionCounter (cl st)"
  by (simp_all add: cleanup_visit_def Let_def)

lemma fold_visit_config:
  "idleSessionTimeout (cl (fold (cleanup_visit now) es st)) = idleSessionTimeout (cl st)"
  "minIdleSession (cl (fold (cleanup_visit now) es st)) = minIdleSession (cl st)"
  "minIdleSessionForAge (cl (fold (cleanup_visit now) es st)) = minIdleSessionForAge (cl st)"
  "maxConnectionLifetime (cl (fold (cleanup_visit now) es st)) = maxConnectionLifetime (cl st)"
  "connectionLifetimeJitter (cl (fold (cleanup_visit now) es st))
     = connectionLifetimeJitter (cl st)"
  by (induction es arbitrary: st) (simp_all add: visit_config)

lemma visit_heap_length:
  "length (heap (cl (cleanup_visit now e st))) = length (heap (cl st))"
  by (simp add: visit_heap)

lemma fold_visit_heap_length:
  "length (heap (cl (fold (cleanup_visit now) es st))) = length (heap (cl st))"
  by (induction es arbitrary: st) (simp_all add: visit_heap_length)

lemma idleExpired_cong:
  "idleSessionTimeout c' = idleSessionTimeout c \<Longrightarrow> idleExpired c' now s = idleExpired c now s"
  by (simp add: idleExpired_def)

lemma fold_visit_idle_count:
  "idleActiveCount (fold (cleanup_visit now) es st)
     + int (length (idleSessionsToClose (fold (cleanup_visit now) es st)))
   = idleActiveCount st + int (length (idleSessionsToClose st)) + int (length es)"
  by (induction es arbitrary: st)
    (simp_all add: visit_idleActiveCount visit_idleSessionsToClose)

lemma scan_split:
  assumes "idleSession c = pre @ e # post"
  shows "cleanup_scan now c
           = fold (cleanup_visit now) post
               (cleanup_visit now e (fold (cleanup_visit now) pre (cleanup_init c)))"
  by (simp add: cleanup_scan_def assms)

lemma five_idle_scenario:
  "map snd (idleSession five_idle_client) = [4, 3, 2, 1, 0]
   \<and> map idleSince (heap five_idle_client) = [0, 0, 0, 0, 0]
   \<and> idleSessionsToClose (cleanup_scan 60000000000 five_idle_client) = [2, 1, 0]
   \<and> map snd (idleSession five_idle_after_tick) = [4, 3]
   \<and> map closed (heap five_idle_after_tick) = [True, True, True, False, False]
   \<and> map idleSince (heap five_idle_after_tick) = [0, 0, 0, 60000000000, 60000000000]"
  by code_simp

text \<open>
  C2. In every tick, when the scan reaches a pool entry (after the entries \<open>pre\<close> before
  it, newest first), \<open>idleActiveCount\<close> is the number of sessions visited so far and not
  marked for idle-close. A session whose \<open>idleSince\<close> is strictly before
  \<open>now - idleSessionTimeout\<close> is marked for idle-close (and leaves the pool) exactly when
  that count has reached \<open>minIdleSession\<close>; otherwise its \<open>idleSince\<close> is reset to the
  tick time and it is counted. A session within the timeout is always counted.
  In the scenario (five sessions idle for 60s, timeout 30s, floor 2), one tick closes
  exactly the three oldest sessions, and the two newest stay in the pool with
  \<open>idleSince\<close> reset to the tick time.
\<close>

theorem cleanup_idle_decision:
  assumes split: "idleSession c = pre @ (key, a) # post"
    and valid: "a < length (heap c)"
    and st: "st = fold (cleanup_visit now) pre (cleanup_init c)"
    and st': "st' = cleanup_visit now (key, a) st"
  shows "cleanup_scan now c = fold (cleanup_visit now) post st'
   \<and> idleActiveCount st = int (length pre) - int (length (idleSessionsToClose st))
   \<and> (idleExpired c now (heap (cl st) ! a) \<and> minIdleSession c \<le> idleActiveCount st \<longrightarrow>
        idleSessionsToClose st' = idleSessionsToClose st @ [a] \<and>
        idleSession (cl st') = skiplist_Remove key (idleSession (cl st)) \<and>
        idleActiveCount st' = idleActiveCount st)
   \<and> (idleExpired c now (heap (cl st) ! a) \<and> idleActiveCount st < minIdleSession c \<longrightarrow>
        idleSessionsToClose st' = idleSessionsToClose st \<and>
        idleSince (heap (cl st') ! a) = now \<and>
        idleActiveCount st' = idleActiveCount st + 1)
   \<and> (\<not> idleExpired c now (heap (cl st) ! a) \<longrightarrow>
        idleSessionsToClose st' = idleSessionsToClose st \<and>
        heap (cl st') = heap (cl st) \<and>
        idleActiveCount st' = idleActiveCount st + 1)
   \<and> idleSessionsToClose (cleanup_scan 60000000000 five_idle_client) = [2, 1, 0]
   \<and> map snd (idleSession five_idle_after_tick) = [4, 3]
   \<and> map closed (heap five_idle_after_tick) = [True, True, True, False, False]
   \<and> map idleSince (heap five_idle_after_tick) = [0, 0, 0, 60000000000, 60000000000]"
proof -
  have cfg: "idleSessionTimeout (cl st) = idleSessionTimeout c"
    "minIdleSession (cl st) = minIdleSession c"
    by (simp_all add: st fold_visit_config cleanup_init_def)
  have ex: "idleExpired (cl st) now (heap (cl st) ! a) = idleExpired c now (heap (cl st) ! a)"
    using cfg(1) by (rule idleExpired_cong)
  have len: "a < length (heap (cl st))"
    using valid by (simp add: st fold_visit_heap_length cleanup_init_def)
  have 1: "cleanup_scan now c = fold (cleanup_visit now) post st'"
    using scan_split [OF split] by (simp add: st st')
  have "idleActiveCount st + int (length (idleSessionsToClose st)) = int (length pre)"
    using fold_visit_idle_count [of now pre "cleanup_init c"]
    by (simp add: st cleanup_init_def)
  then have 2: "idleActiveCount st = int (length pre) - int (length (idleSessionsToClose st))"
    by simp
  have 3: "idleExpired c now (heap (cl st) ! a) \<and> minIdleSession c \<le> idleActiveCount st \<longrightarrow>
        idleSessionsToClose st' = idleSessionsToClose st @ [a] \<and>
        idleSession (cl st') = skiplist_Remove key (idleSession (cl st)) \<and>
        idleActiveCount st' = idleActiveCount st"
    by (simp add: st' visit_idleSessionsToClose visit_idleSession visit_idleActiveCount
        shouldCloseIdle_def ex cfg)
  have 4: "idleExpired c now (heap (cl st) ! a) \<and> idleActiveCount st < minIdleSession c \<longrightarrow>
        idleSessionsToClose st' = idleSessionsToClose st \<and>
        idleSince (heap (cl st') ! a) = now \<and>
        idleActiveCount st' = idleActiveCount st + 1"
    using len
    by (simp add: st' visit_idleSessionsToClose visit_heap visit_idleActiveCount
        shouldCloseIdle_def ex cfg)
  have 5: "\<not> idleExpired c now (heap (cl st) ! a) \<longrightarrow>
        idleSessionsToClose st' = idleSessionsToClose st \<and>
        heap (cl st') = heap (cl st) \<and>
        idleActiveCount st' = idleActiveCount st + 1"
    by (simp add: st' visit_idleSessionsToClose visit_heap visit_idleActiveCount
        shouldCloseIdle_def ex cfg)
  from 1 2 3 4 5 five_idle_scenario show ?thesis by blast
qed

theorem cleanup_idle_decision_witness:
  "idleSession five_idle_client
     = [(MaxUint64 - 5, 4), (MaxUint64 - 4, 3)] @ (MaxUint64 - 3, 2)
         # [(MaxUint64 - 2, 1), (MaxUint64 - 1, 0)]
   \<and> 2 < length (heap five_idle_client)
   \<and> idleActiveCount (fold (cleanup_visit 60000000000)
          [(MaxUint64 - 5, 4), (MaxUint64 - 4, 3)] (cleanup_init five_idle_client)) = 2
   \<and> idleSessionsToClose (cleanup_visit 60000000000 (MaxUint64 - 3, 2)
          (fold (cleanup_visit 60000000000)
             [(MaxUint64 - 5, 4), (MaxUint64 - 4, 3)] (cleanup_init five_idle_client))) = [2]"
proof -
  let ?pre = "[(MaxUint64 - 5, 4), (MaxUint64 - 4, 3)]"
  let ?post = "[(MaxUint64 - 2, 1), (MaxUint64 - 1, 0)]"
  let ?st = "fold (cleanup_visit 60000000000) ?pre (cleanup_init five_idle_client)"
  have split: "idleSession five_idle_client = ?pre @ (MaxUint64 - 3, 2) # ?post"
    by code_simp
  have valid: "2 < length (heap five_idle_client)"
    by code_simp
  have none: "idleSessionsToClose ?st = []"
    by code_simp
  have ex: "idleExpired five_idle_client 60000000000 (heap (cl ?st) ! 2)"
    by code_simp
  have m: "minIdleSession five_idle_client = 2"
    by code_simp
  note t = cleanup_idle_decision [OF split valid refl refl, of 60000000000]
  from t have c: "idleActiveCount ?st = 2" using none by simp
  from t ex m c none
  have "idleSessionsToClose (cleanup_visit 60000000000 (MaxUint64 - 3, 2) ?st) = [2]"
    by simp
  with split valid c show ?thesis by blast
qed

section \<open>Age-based rotation\<close>

text \<open>The scan never changes what the age test reads: \<open>seq\<close> and \<open>createdAt\<close>.\<close>

lemma nth_update_field:
  "(xs[i := x]) ! j = (if i = j \<and> i < length xs then x else xs ! j)"
  by (cases "i < length xs") (simp_all add: nth_list_update list_update_beyond)

lemma visit_heap_nth:
  "seq (heap (cl (cleanup_visit now e st)) ! j) = seq (heap (cl st) ! j)"
  "createdAt (heap (cl (cleanup_visit now e st)) ! j) = createdAt (heap (cl st) ! j)"
  "closed (heap (cl (cleanup_visit now e st)) ! j) = closed (heap (cl st) ! j)"
  by (simp_all add: visit_heap nth_update_field)

lemma ageExpired_cong:
  "maxConnectionLifetime c' = maxConnectionLifetime c \<Longrightarrow>
   connectionLifetimeJitter c' = connectionLifetimeJitter c \<Longrightarrow>
   seq s' = seq s \<Longrightarrow> createdAt s' = createdAt s \<Longrightarrow>
   ageExpired c' now s' = ageExpired c now s"
  by (simp add: ageExpired_def sessionLifetime_def)

lemma visit_ageExpired:
  "ageExpired (cl (cleanup_visit now e st)) now (heap (cl (cleanup_visit now e st)) ! j)
     = ageExpired (cl st) now (heap (cl st) ! j)"
  by (rule ageExpired_cong) (simp_all add: visit_config visit_heap_nth)

lemma fold_visit_ageExpired:
  "ageExpired (cl (fold (cleanup_visit now) es st)) now
      (heap (cl (fold (cleanup_visit now) es st)) ! j)
     = ageExpired (cl st) now (heap (cl st) ! j)"
  by (induction es arbitrary: st) (simp_all add: visit_ageExpired)

lemma fold_visit_age_bound:
  "int (length (ageSessionsToClose (fold (cleanup_visit now) es st)))
     \<le> int (length (ageSessionsToClose st))
       + max 0 (ageActiveCount st
           + int (length (filter (\<lambda>e. ageExpired (cl st) now (heap (cl st) ! snd e)) es))
           - minIdleSessionForAge (cl st))"
proof (induction es arbitrary: st)
  case Nil
  show ?case by simp
next
  case (Cons e es)
  let ?st1 = "cleanup_visit now e st"
  let ?E = "\<lambda>s. int (length (filter (\<lambda>e. ageExpired (cl s) now (heap (cl s) ! snd e)) es))"
  have same: "?E ?st1 = ?E st" by (simp add: visit_ageExpired)
  have ih: "int (length (ageSessionsToClose (fold (cleanup_visit now) es ?st1)))
     \<le> int (length (ageSessionsToClose ?st1))
       + max 0 (ageActiveCount ?st1 + ?E st - minIdleSessionForAge (cl st))"
    using Cons.IH [of ?st1] by (simp add: same visit_config)
  consider (close) "shouldCloseAge now (snd e) st"
    | (keep) "ageChecked now (snd e) st" "\<not> shouldCloseAge now (snd e) st"
    | (skip) "\<not> ageChecked now (snd e) st"
    by blast
  then show ?case
  proof cases
    case close
    then have "ageExpired (cl st) now (heap (cl st) ! snd e)"
      and "minIdleSessionForAge (cl st) \<le> ageActiveCount st"
      by (simp_all add: shouldCloseAge_def ageChecked_def)
    then show ?thesis
      using ih close by (simp add: visit_ageSessionsToClose visit_ageActiveCount)
  next
    case keep
    then have "ageExpired (cl st) now (heap (cl st) ! snd e)"
      by (simp add: ageChecked_def)
    then show ?thesis
      using ih keep by (simp add: visit_ageSessionsToClose visit_ageActiveCount)
  next
    case skip
    then have "\<not> shouldCloseAge now (snd e) st" by (simp add: shouldCloseAge_def)
    then show ?thesis
      using ih skip
      by (cases "ageExpired (cl st) now (heap (cl st) ! snd e)")
        (simp_all add: visit_ageSessionsToClose visit_ageActiveCount)
  qed
qed

lemma reached_ageExpired:
  "ageExpired (cl (fold (cleanup_visit now) pre (cleanup_init c))) now
      (heap (cl (fold (cleanup_visit now) pre (cleanup_init c))) ! j)
     = ageExpired c now (heap c ! j)"
  by (simp add: fold_visit_ageExpired cleanup_init_def)

lemma reached_config:
  "idleSessionTimeout (cl (fold (cleanup_visit now) pre (cleanup_init c))) = idleSessionTimeout c"
  "minIdleSession (cl (fold (cleanup_visit now) pre (cleanup_init c))) = minIdleSession c"
  "minIdleSessionForAge (cl (fold (cleanup_visit now) pre (cleanup_init c)))
     = minIdleSessionForAge c"
  "maxConnectionLifetime (cl (fold (cleanup_visit now) pre (cleanup_init c)))
     = maxConnectionLifetime c"
  by (simp_all add: fold_visit_config cleanup_init_def)

lemma scan_age_bound:
  "int (length (ageSessionsToClose (cleanup_scan now c)))
     \<le> max 0 (int (length (filter (\<lambda>e. ageExpired c now (heap c ! snd e)) (idleSession c)))
                - minIdleSessionForAge c)"
  using fold_visit_age_bound [of now "idleSession c" "cleanup_init c"]
  by (simp add: cleanup_scan_def cleanup_init_def)

text \<open>
  C3. In a tick with \<open>maxConnectionLifetime > 0\<close>, a session that is not marked for
  idle-close and whose age exceeds its effective lifetime is marked for age-close exactly
  when \<open>ageActiveCount\<close> has reached \<open>minIdleSessionForAge\<close>; otherwise it stays in the
  pool and increments the counter. A session that is not age-expired never changes the
  counter. Hence a tick in which fewer than \<open>minIdleSessionForAge\<close> pooled sessions are
  age-expired closes no session for age.
\<close>

theorem cleanup_age_decision:
  assumes split: "idleSession c = pre @ (key, a) # post"
    and st: "st = fold (cleanup_visit now) pre (cleanup_init c)"
    and st': "st' = cleanup_visit now (key, a) st"
  shows "cleanup_scan now c = fold (cleanup_visit now) post st'
   \<and> (0 <s maxConnectionLifetime c \<and> \<not> shouldCloseIdle now a st \<and>
        ageExpired c now (heap c ! a) \<and> minIdleSessionForAge c \<le> ageActiveCount st \<longrightarrow>
        ageSessionsToClose st' = ageSessionsToClose st @ [a] \<and>
        idleSession (cl st') = skiplist_Remove key (idleSession (cl st)) \<and>
        ageActiveCount st' = ageActiveCount st)
   \<and> (0 <s maxConnectionLifetime c \<and> \<not> shouldCloseIdle now a st \<and>
        ageExpired c now (heap c ! a) \<and> ageActiveCount st < minIdleSessionForAge c \<longrightarrow>
        ageSessionsToClose st' = ageSessionsToClose st \<and>
        idleSession (cl st') = idleSession (cl st) \<and>
        ageActiveCount st' = ageActiveCount st + 1)
   \<and> (\<not> ageExpired c now (heap c ! a) \<longrightarrow>
        ageSessionsToClose st' = ageSessionsToClose st \<and>
        ageActiveCount st' = ageActiveCount st)
   \<and> (int (length (filter (\<lambda>e. ageExpired c now (heap c ! snd e)) (idleSession c)))
          < minIdleSessionForAge c \<longrightarrow>
        ageSessionsToClose (cleanup_scan now c) = [])"
proof -
  have ex: "ageExpired (cl st) now (heap (cl st) ! a) = ageExpired c now (heap c ! a)"
    unfolding st by (rule reached_ageExpired)
  have cfg: "minIdleSessionForAge (cl st) = minIdleSessionForAge c"
    "maxConnectionLifetime (cl st) = maxConnectionLifetime c"
    unfolding st by (rule reached_config)+
  have 1: "cleanup_scan now c = fold (cleanup_visit now) post st'"
    using scan_split [OF split] by (simp add: st st')
  have 2: "0 <s maxConnectionLifetime c \<and> \<not> shouldCloseIdle now a st \<and>
        ageExpired c now (heap c ! a) \<and> minIdleSessionForAge c \<le> ageActiveCount st \<longrightarrow>
        ageSessionsToClose st' = ageSessionsToClose st @ [a] \<and>
        idleSession (cl st') = skiplist_Remove key (idleSession (cl st)) \<and>
        ageActiveCount st' = ageActiveCount st"
    by (simp add: st' visit_ageSessionsToClose visit_idleSession visit_ageActiveCount
        shouldCloseAge_def ageChecked_def ex cfg)
  have 3: "0 <s maxConnectionLifetime c \<and> \<not> shouldCloseIdle now a st \<and>
        ageExpired c now (heap c ! a) \<and> ageActiveCount st < minIdleSessionForAge c \<longrightarrow>
        ageSessionsToClose st' = ageSessionsToClose st \<and>
        idleSession (cl st') = idleSession (cl st) \<and>
        ageActiveCount st' = ageActiveCount st + 1"
    by (simp add: st' visit_ageSessionsToClose visit_idleSession visit_ageActiveCount
        shouldCloseAge_def ageChecked_def ex cfg)
  have 4: "\<not> ageExpired c now (heap c ! a) \<longrightarrow>
        ageSessionsToClose st' = ageSessionsToClose st \<and>
        ageActiveCount st' = ageActiveCount st"
    by (simp add: st' visit_ageSessionsToClose visit_ageActiveCount
        shouldCloseAge_def ageChecked_def ex cfg)
  have 5: "int (length (filter (\<lambda>e. ageExpired c now (heap c ! snd e)) (idleSession c)))
          < minIdleSessionForAge c \<longrightarrow>
        ageSessionsToClose (cleanup_scan now c) = []"
    using scan_age_bound [of now c] by auto
  from 1 2 3 4 5 show ?thesis by blast
qed

theorem cleanup_age_decision_witness:
  "idleSession two_aged_client = [(MaxUint64 - 2, 1)] @ (MaxUint64 - 1, 0) # []
   \<and> ageExpired two_aged_client 105000000000 (heap two_aged_client ! 0)
   \<and> ageActiveCount (fold (cleanup_visit 105000000000) [(MaxUint64 - 2, 1)]
         (cleanup_init two_aged_client)) = 1
   \<and> minIdleSessionForAge two_aged_client = 1
   \<and> ageSessionsToClose (cleanup_scan 105000000000 two_aged_client) = [0]"
proof -
  let ?c = two_aged_client
  let ?now = "105000000000 :: int"
  let ?st = "fold (cleanup_visit ?now) [(MaxUint64 - 2, 1)] (cleanup_init ?c)"
  let ?st' = "cleanup_visit ?now (MaxUint64 - 1, 0) ?st"
  have split: "idleSession ?c = [(MaxUint64 - 2, 1)] @ (MaxUint64 - 1, 0) # []" by code_simp
  have enabled: "0 <s maxConnectionLifetime ?c" by code_simp
  have noidle: "\<not> shouldCloseIdle ?now 0 ?st" by code_simp
  have aged: "ageExpired ?c ?now (heap ?c ! 0)" by code_simp
  have cnt: "ageActiveCount ?st = 1" by code_simp
  have m: "minIdleSessionForAge ?c = 1" by code_simp
  have none: "ageSessionsToClose ?st = []" by code_simp
  note t = cleanup_age_decision [OF split refl refl, of ?now]
  from t enabled noidle aged cnt m have "ageSessionsToClose ?st' = ageSessionsToClose ?st @ [0]"
    by simp
  moreover from t have "cleanup_scan ?now ?c = ?st'" by simp
  ultimately have "ageSessionsToClose (cleanup_scan ?now ?c) = [0]"
    using none by simp
  with split aged cnt m show ?thesis by blast
qed

section \<open>The idle floor does not protect against rotation\<close>

lemma fold_visit_age_mono:
  "set (ageSessionsToClose st) \<subseteq> set (ageSessionsToClose (fold (cleanup_visit now) es st))"
proof (induction es arbitrary: st)
  case Nil
  show ?case by simp
next
  case (Cons e es)
  have "set (ageSessionsToClose st) \<subseteq> set (ageSessionsToClose (cleanup_visit now e st))"
    by (auto simp: visit_ageSessionsToClose)
  also have "\<dots> \<subseteq> set (ageSessionsToClose (fold (cleanup_visit now) es (cleanup_visit now e st)))"
    by (rule Cons.IH)
  finally show ?case by simp
qed

lemma Session_Close_heap_length: "length (heap (Session_Close c a)) = length (heap c)"
  by (simp add: Session_Close_def session_dieHook_def)

lemma Session_Close_closed:
  "a < length (heap c) \<Longrightarrow> closed (heap (Session_Close c a) ! a)"
  by (simp add: Session_Close_def session_dieHook_def)

lemma Session_Close_keeps_closed:
  "closed (heap c ! b) \<Longrightarrow> closed (heap (Session_Close c a) ! b)"
  by (simp add: Session_Close_def session_dieHook_def nth_update_field)

lemma close_all_heap_length: "length (heap (close_all as c)) = length (heap c)"
  unfolding close_all_def
  by (induction as arbitrary: c) (simp_all add: Session_Close_heap_length)

lemma close_all_keeps_closed:
  "closed (heap c ! b) \<Longrightarrow> closed (heap (close_all as c) ! b)"
  unfolding close_all_def
  by (induction as arbitrary: c) (simp_all add: Session_Close_keeps_closed)

lemma close_all_closed:
  "a \<in> set as \<Longrightarrow> a < length (heap c) \<Longrightarrow> closed (heap (close_all as c) ! a)"
  unfolding close_all_def
proof (induction as arbitrary: c)
  case Nil
  then show ?case by simp
next
  case (Cons b as)
  show ?case
  proof (cases "a = b")
    case True
    have "closed (heap (Session_Close c a) ! a)"
      using Cons.prems(2) by (rule Session_Close_closed)
    then have "closed (heap (close_all as (Session_Close c a)) ! a)"
      by (rule close_all_keeps_closed)
    then show ?thesis using True by (simp add: close_all_def)
  next
    case False
    then have "a \<in> set as" using Cons.prems(1) by simp
    moreover have "a < length (heap (Session_Close c b))"
      using Cons.prems(2) by (simp add: Session_Close_heap_length)
    ultimately show ?thesis using Cons.IH by simp
  qed
qed

lemma cleanup_closes_aged:
  assumes "a \<in> set (ageSessionsToClose (cleanup_scan now c))" and "a < length (heap c)"
  shows "closed (heap (fst (cleanup now c)) ! a)"
proof -
  let ?st = "cleanup_scan now c"
  have len: "a < length (heap (close_all (idleSessionsToClose ?st) (cl ?st)))"
    using assms(2)
    by (simp add: close_all_heap_length cleanup_scan_def fold_visit_heap_length cleanup_init_def)
  show ?thesis
    using close_all_closed [OF assms(1) len] by (simp add: cleanup_def Let_def)
qed

text \<open>
  C10. A session that the idle floor protects in a tick (it is idle for too long, but
  fewer than \<open>minIdleSession\<close> sessions have been retained, so its \<open>idleSince\<close> is reset
  and it is counted) is still examined by the age check of the same tick: when it is
  age-expired and \<open>ageActiveCount\<close> has reached \<open>minIdleSessionForAge\<close>, it is marked
  for age-close, removed from the pool and closed by that tick.
\<close>

theorem idle_floor_no_age_protection:
  assumes split: "idleSession c = pre @ (key, a) # post"
    and valid: "a < length (heap c)"
    and st: "st = fold (cleanup_visit now) pre (cleanup_init c)"
    and st': "st' = cleanup_visit now (key, a) st"
    and idle: "idleExpired c now (heap (cl st) ! a)"
    and floor: "idleActiveCount st < minIdleSession c"
    and enabled: "0 <s maxConnectionLifetime c"
    and aged: "ageExpired c now (heap c ! a)"
    and reached: "minIdleSessionForAge c \<le> ageActiveCount st"
  shows "idleSince (heap (cl st') ! a) = now
   \<and> idleActiveCount st' = idleActiveCount st + 1
   \<and> idleSessionsToClose st' = idleSessionsToClose st
   \<and> ageSessionsToClose st' = ageSessionsToClose st @ [a]
   \<and> idleSession (cl st') = skiplist_Remove key (idleSession (cl st))
   \<and> a \<in> set (ageSessionsToClose (cleanup_scan now c))
   \<and> closed (heap (fst (cleanup now c)) ! a)"
proof -
  have cfg: "idleSessionTimeout (cl st) = idleSessionTimeout c"
    "minIdleSession (cl st) = minIdleSession c"
    "minIdleSessionForAge (cl st) = minIdleSessionForAge c"
    "maxConnectionLifetime (cl st) = maxConnectionLifetime c"
    unfolding st by (rule reached_config)+
  have iex: "idleExpired (cl st) now (heap (cl st) ! a)"
    using idle cfg(1) by (simp add: idleExpired_def)
  have aex: "ageExpired (cl st) now (heap (cl st) ! a)"
    unfolding st using aged by (simp add: reached_ageExpired)
  have len: "a < length (heap (cl st))"
    using valid by (simp add: st fold_visit_heap_length cleanup_init_def)
  have noidle: "\<not> shouldCloseIdle now a st"
    using floor by (simp add: shouldCloseIdle_def cfg)
  have age: "shouldCloseAge now a st"
    using noidle aex enabled reached by (simp add: shouldCloseAge_def ageChecked_def cfg)
  have 1: "idleSince (heap (cl st') ! a) = now"
    using len iex noidle by (simp add: st' visit_heap)
  have 2: "idleActiveCount st' = idleActiveCount st + 1"
    using noidle by (simp add: st' visit_idleActiveCount)
  have 3: "idleSessionsToClose st' = idleSessionsToClose st"
    using noidle by (simp add: st' visit_idleSessionsToClose)
  have 4: "ageSessionsToClose st' = ageSessionsToClose st @ [a]"
    using age by (simp add: st' visit_ageSessionsToClose)
  have 5: "idleSession (cl st') = skiplist_Remove key (idleSession (cl st))"
    using age by (simp add: st' visit_idleSession)
  have "cleanup_scan now c = fold (cleanup_visit now) post st'"
    using scan_split [OF split] by (simp add: st st')
  moreover have "a \<in> set (ageSessionsToClose st')" using 4 by simp
  ultimately have 6: "a \<in> set (ageSessionsToClose (cleanup_scan now c))"
    using fold_visit_age_mono [of st' now post] by auto
  have 7: "closed (heap (fst (cleanup now c)) ! a)"
    using 6 valid by (rule cleanup_closes_aged)
  from 1 2 3 4 5 6 7 show ?thesis by blast
qed

theorem idle_floor_no_age_protection_witness:
  "idleSession one_old_client = [] @ (MaxUint64 - 1, 0) # []
   \<and> idleExpired one_old_client 105000000000 (heap one_old_client ! 0)
   \<and> idleActiveCount (cleanup_init one_old_client) < minIdleSession one_old_client
   \<and> ageExpired one_old_client 105000000000 (heap one_old_client ! 0)
   \<and> ageSessionsToClose (cleanup_scan 105000000000 one_old_client) = [0]
   \<and> idleSessionsToClose (cleanup_scan 105000000000 one_old_client) = []
   \<and> idleSession (fst (cleanup 105000000000 one_old_client)) = []
   \<and> closed (heap (fst (cleanup 105000000000 one_old_client)) ! 0)
   \<and> idleSince (heap (fst (cleanup 105000000000 one_old_client)) ! 0) = 105000000000"
proof -
  let ?c = one_old_client
  let ?now = "105000000000 :: int"
  have split: "idleSession ?c = [] @ (MaxUint64 - 1, 0) # []" by code_simp
  have valid: "0 < length (heap ?c)" by code_simp
  have st: "cleanup_init ?c = fold (cleanup_visit ?now) [] (cleanup_init ?c)" by simp
  have idle: "idleExpired ?c ?now (heap (cl (cleanup_init ?c)) ! 0)" by code_simp
  have idle': "idleExpired ?c ?now (heap ?c ! 0)" by code_simp
  have floor: "idleActiveCount (cleanup_init ?c) < minIdleSession ?c" by code_simp
  have enabled: "0 <s maxConnectionLifetime ?c" by code_simp
  have aged: "ageExpired ?c ?now (heap ?c ! 0)" by code_simp
  have reached: "minIdleSessionForAge ?c \<le> ageActiveCount (cleanup_init ?c)" by code_simp
  note t = idle_floor_no_age_protection
    [OF split valid st refl idle floor enabled aged reached]
  have rest: "ageSessionsToClose (cleanup_scan ?now ?c) = [0]
     \<and> idleSessionsToClose (cleanup_scan ?now ?c) = []
     \<and> idleSession (fst (cleanup ?now ?c)) = []
     \<and> idleSince (heap (fst (cleanup ?now ?c)) ! 0) = ?now"
    by code_simp
  from t split idle' floor aged rest show ?thesis by blast
qed

section \<open>The order of the idle pool\<close>

text \<open>The skip list stays ordered, and every operation keeps the pool keyed.\<close>

lemma set_skiplist_Insert:
  "set (skiplist_Insert k v p) \<subseteq> insert (k, v) (set p)"
  by (induction p) auto

lemma sorted_skiplist_Insert:
  "sorted_wrt (<) (map fst p) \<Longrightarrow> sorted_wrt (<) (map fst (skiplist_Insert k v p))"
proof (induction p)
  case Nil
  show ?case by simp
next
  case (Cons e p)
  have tl: "sorted_wrt (<) (map fst p)" and hd: "\<forall>x \<in> set p. fst e < fst x"
    using Cons.prems by auto
  show ?case
  proof (cases "k < fst e")
    case True
    then show ?thesis using Cons.prems by auto
  next
    case False
    show ?thesis
    proof (cases "k = fst e")
      case True
      then show ?thesis using Cons.prems by auto
    next
      case ne: False
      have lt: "fst e < k" using False ne by simp
      have "\<forall>x \<in> set (skiplist_Insert k v p). fst e < fst x"
        using hd lt set_skiplist_Insert [of k v p] by auto
      then show ?thesis using False ne Cons.IH [OF tl] by simp
    qed
  qed
qed

lemma sorted_skiplist_Remove:
  "sorted_wrt (<) (map fst p) \<Longrightarrow> sorted_wrt (<) (map fst (skiplist_Remove k p))"
  unfolding skiplist_Remove_def by (induction p) auto

lemma set_skiplist_Remove: "set (skiplist_Remove k p) = {e \<in> set p. fst e \<noteq> k}"
  by (auto simp: skiplist_Remove_def)

lemma skiplist_Remove_head:
  assumes "sorted_wrt (<) (map fst (e # p))"
  shows "skiplist_Remove (fst e) (e # p) = p"
proof -
  have "\<forall>x \<in> set p. fst x \<noteq> fst e" using assms by auto
  then have "filter (\<lambda>x. fst x \<noteq> fst e) p = p" by (simp add: filter_id_conv)
  then show ?thesis by (simp add: skiplist_Remove_def)
qed

lemma keyed_heap_mono:
  assumes "keyed h p" and "length h \<le> length h'"
    and "\<forall>i < length h. seq (h' ! i) = seq (h ! i)"
  shows "keyed h' p"
  using assms unfolding keyed_def by fastforce

lemma keyed_Remove: "keyed h p \<Longrightarrow> keyed h (skiplist_Remove k p)"
  unfolding keyed_def by (simp add: sorted_skiplist_Remove set_skiplist_Remove)

lemma keyed_Insert:
  assumes "keyed h p" and "a < length h"
  shows "keyed h (skiplist_Insert (MaxUint64 - seq (h ! a)) a p)"
proof -
  have "\<forall>e \<in> set (skiplist_Insert (MaxUint64 - seq (h ! a)) a p).
          snd e < length h \<and> fst e = MaxUint64 - seq (h ! snd e)"
    using assms set_skiplist_Insert [of "MaxUint64 - seq (h ! a)" a p]
    unfolding keyed_def by auto
  then show ?thesis using assms(1) unfolding keyed_def by (simp add: sorted_skiplist_Insert)
qed

lemma keyed_Session_Close: "pool_keyed c \<Longrightarrow> pool_keyed (Session_Close c a)"
  unfolding pool_keyed_def Session_Close_def session_dieHook_def
  by (auto intro!: keyed_Remove elim!: keyed_heap_mono simp: nth_update_field)

lemma keyed_close_all: "pool_keyed c \<Longrightarrow> pool_keyed (close_all as c)"
  unfolding close_all_def
  by (induction as arbitrary: c) (simp_all add: keyed_Session_Close)

lemma keyed_createSession: "pool_keyed c \<Longrightarrow> pool_keyed (fst (createSession now dialOK c))"
  unfolding pool_keyed_def createSession_def
  by (auto elim!: keyed_heap_mono simp: Let_def nth_append)

lemma keyed_put:
  assumes "pool_keyed c" and "a < length (heap c)"
  shows "pool_keyed (c\<lparr>heap := (heap c)[a := (heap c ! a)\<lparr>idleSince := t\<rparr>],
            idleSession := skiplist_Insert (MaxUint64 - seq (heap c ! a)) a (idleSession c)\<rparr>)"
proof -
  let ?h = "(heap c)[a := (heap c ! a)\<lparr>idleSince := t\<rparr>]"
  have k: "keyed ?h (idleSession c)"
    using assms(1) unfolding pool_keyed_def
    by (rule keyed_heap_mono) (simp_all add: nth_update_field)
  have "a < length ?h" using assms(2) by simp
  with k have "keyed ?h (skiplist_Insert (MaxUint64 - seq (?h ! a)) a (idleSession c))"
    by (rule keyed_Insert)
  moreover have "seq (?h ! a) = seq (heap c ! a)" by (simp add: nth_update_field)
  ultimately show ?thesis by (simp add: pool_keyed_def)
qed

lemma keyed_stream_dieHook:
  "pool_keyed c \<Longrightarrow> a < length (heap c) \<Longrightarrow> pool_keyed (stream_dieHook now a c)"
  by (simp add: stream_dieHook_def keyed_Session_Close keyed_put)

lemma createSession_Some:
  "createSession now dialOK c = (c1, Some a) \<Longrightarrow>
     a = length (heap c) \<and> length (heap c1) = Suc (length (heap c)) \<and> c1 = fst (createSession now dialOK c)"
  by (auto simp: createSession_def Let_def split: if_splits)

lemma createSession_None:
  "createSession now dialOK c = (c1, None) \<Longrightarrow> c1 = c"
  by (auto simp: createSession_def Let_def split: if_splits)

lemma keyed_proactive_creator:
  assumes "pool_keyed c"
  shows "pool_keyed (proactive_creator t1 t2 dialOK c)"
proof (cases "createSession t1 dialOK c")
  case (Pair c1 r)
  show ?thesis
  proof (cases r)
    case None
    then show ?thesis using Pair assms createSession_None [of t1 dialOK c c1]
      by (simp add: proactive_creator_def)
  next
    case (Some a)
    have c1: "pool_keyed c1" and a: "a < length (heap c1)"
      using createSession_Some [of t1 dialOK c c1 a] keyed_createSession [OF assms, of t1 dialOK]
        Pair Some by simp_all
    show ?thesis using Pair Some keyed_put [OF c1 a] by (simp add: proactive_creator_def)
  qed
qed

lemma keyed_cleanup_visit:
  assumes "pool_keyed (cl st)"
  shows "pool_keyed (cl (cleanup_visit now e st))"
proof -
  have "keyed (heap (cl (cleanup_visit now e st))) (idleSession (cl st))"
    using assms unfolding pool_keyed_def
    by (rule keyed_heap_mono) (simp_all add: visit_heap_length visit_heap_nth)
  then show ?thesis
    by (simp add: pool_keyed_def visit_idleSession keyed_Remove)
qed

lemma keyed_cleanup_fold:
  "pool_keyed (cl st) \<Longrightarrow> pool_keyed (cl (fold (cleanup_visit now) es st))"
  by (induction es arbitrary: st) (simp_all add: keyed_cleanup_visit)

lemma keyed_cleanup: "pool_keyed c \<Longrightarrow> pool_keyed (fst (cleanup now c))"
  by (simp add: cleanup_def Let_def cleanup_scan_def cleanup_init_def keyed_close_all
      keyed_cleanup_fold)

lemma keyed_pool_update:
  "pool_keyed c \<Longrightarrow> pool_keyed (c\<lparr>idleSession := skiplist_Remove k (idleSession c)\<rparr>)"
  by (simp add: pool_keyed_def keyed_Remove)

lemma keyed_getIdleSession:
  assumes "pool_keyed c"
  shows "pool_keyed (fst (getIdleSession c))"
proof (cases "idleSession c")
  case Nil
  then show ?thesis using assms by (simp add: getIdleSession_def)
next
  case (Cons e es)
  have "pool_keyed (c\<lparr>idleSession := skiplist_Remove (fst e) (idleSession c)\<rparr>)"
    using assms by (rule keyed_pool_update)
  then show ?thesis using Cons by (simp add: getIdleSession_def)
qed

lemma keyed_openStream: "pool_keyed c \<Longrightarrow> pool_keyed (fst (openStream openOK a c))"
  by (simp add: openStream_def keyed_Session_Close)

lemma keyed_CreateStream:
  assumes "pool_keyed c"
  shows "pool_keyed (fst (CreateStream now dialOK openOK c))"
proof (cases "die c")
  case True
  then show ?thesis using assms by (simp add: CreateStream_def)
next
  case False
  obtain c1 r where g: "getIdleSession c = (c1, r)" by (cases "getIdleSession c")
  have c1: "pool_keyed c1" using keyed_getIdleSession [OF assms] g by simp
  show ?thesis
  proof (cases r)
    case (Some a)
    then show ?thesis using False g c1 by (simp add: CreateStream_def keyed_openStream)
  next
    case None
    obtain c2 r2 where s: "createSession now dialOK c1 = (c2, r2)"
      by (cases "createSession now dialOK c1")
    have c2: "pool_keyed c2" using keyed_createSession [OF c1, of now dialOK] s by simp
    show ?thesis using False g None s c2
      by (cases r2) (simp_all add: CreateStream_def keyed_openStream)
  qed
qed

lemma keyed_Close:
  assumes "pool_keyed c"
  shows "pool_keyed (Close c)"
proof -
  have "pool_keyed (c\<lparr>die := True, sessions := []\<rparr>)"
    using assms by (simp add: pool_keyed_def)
  then have "pool_keyed (close_all (map snd (sessions c)) (c\<lparr>die := True, sessions := []\<rparr>))"
    by (rule keyed_close_all)
  then show ?thesis by (simp add: Close_def Close_snapshot_def Let_def)
qed

lemma keyed_apply_event:
  "pool_keyed c \<Longrightarrow> event_ok ev c \<Longrightarrow> pool_keyed (apply_event ev c)"
  by (cases ev) (simp_all add: keyed_CreateStream keyed_stream_dieHook keyed_Session_Close
      keyed_cleanup keyed_proactive_creator keyed_Close)

lemma keyed_run:
  "pool_keyed c \<Longrightarrow> run evs c = Some c' \<Longrightarrow> pool_keyed c'"
proof (induction evs arbitrary: c)
  case Nil
  then show ?case by simp
next
  case (Cons ev evs)
  have ok: "event_ok ev c" and r: "run evs (apply_event ev c) = Some c'"
    using Cons.prems(2) by (simp_all split: if_splits)
  have "pool_keyed (apply_event ev c)" using Cons.prems(1) ok by (rule keyed_apply_event)
  then show ?case using r by (rule Cons.IH)
qed

lemma keyed_NewClient: "pool_keyed (NewClient config)"
  by (simp add: pool_keyed_def keyed_def NewClient_def)

lemma unat_MaxUint64_minus:
  "unat (MaxUint64 - x) = 18446744073709551615 - unat x"
proof -
  have m: "MaxUint64 = - 1" by (simp add: MaxUint64_def)
  have "x \<le> MaxUint64" unfolding m by (rule word_n1_ge)
  then have "unat (MaxUint64 - x) = unat MaxUint64 - unat x" by (rule unat_sub)
  then show ?thesis by (simp add: MaxUint64_def)
qed

lemma keyed_newest:
  assumes "keyed h ((k, a) # rest)" and "e \<in> set ((k, a) # rest)"
  shows "seq (h ! snd e) \<le> seq (h ! a)"
proof -
  have ke: "fst e = MaxUint64 - seq (h ! snd e)" and ka: "k = MaxUint64 - seq (h ! a)"
    using assms unfolding keyed_def by auto
  have "k \<le> fst e" using assms unfolding keyed_def by auto
  then have "unat (MaxUint64 - seq (h ! a)) \<le> unat (MaxUint64 - seq (h ! snd e))"
    using ke ka by (simp add: word_le_nat_alt)
  moreover have "unat (seq (h ! a)) < 2 ^ 64" "unat (seq (h ! snd e)) < 2 ^ 64"
    using unsigned_less [of "seq (h ! a)", where ?'a = nat]
      unsigned_less [of "seq (h ! snd e)", where ?'a = nat] by simp_all
  ultimately have "unat (seq (h ! snd e)) \<le> unat (seq (h ! a))"
    by (simp add: unat_MaxUint64_minus)
  then show ?thesis by (simp add: word_le_nat_alt)
qed

text \<open>
  C6. In every state the client reaches, each pooled session sits under the key
  \<open>MaxUint64 - seq\<close>, in ascending key order. An acquisition on a non-empty pool removes
  the first entry and uses its session, whose \<open>seq\<close> is the largest among the sessions
  pooled at that moment; \<open>CreateStream\<close> opens the stream on that session.
\<close>

theorem getIdleSession_newest:
  assumes "run evs (NewClient config) = Some c"
  shows "pool_keyed c
   \<and> (idleSession c = [] \<longrightarrow> getIdleSession c = (c, None))
   \<and> (\<forall>k a rest. idleSession c = (k, a) # rest \<longrightarrow>
         k = MaxUint64 - seq (heap c ! a) \<and>
         getIdleSession c = (c\<lparr>idleSession := rest\<rparr>, Some a) \<and>
         (\<forall>e \<in> set (idleSession c). seq (heap c ! snd e) \<le> seq (heap c ! a)) \<and>
         (\<not> die c \<longrightarrow>
            CreateStream now dialOK True c = (c\<lparr>idleSession := rest\<rparr>, Inr a)))"
proof -
  have pk: "pool_keyed c" using keyed_NewClient assms by (rule keyed_run)
  have e: "idleSession c = [] \<longrightarrow> getIdleSession c = (c, None)"
    by (simp add: getIdleSession_def)
  have n: "\<forall>k a rest. idleSession c = (k, a) # rest \<longrightarrow>
         k = MaxUint64 - seq (heap c ! a) \<and>
         getIdleSession c = (c\<lparr>idleSession := rest\<rparr>, Some a) \<and>
         (\<forall>e \<in> set (idleSession c). seq (heap c ! snd e) \<le> seq (heap c ! a)) \<and>
         (\<not> die c \<longrightarrow>
            CreateStream now dialOK True c = (c\<lparr>idleSession := rest\<rparr>, Inr a))"
  proof (intro allI impI)
    fix k a rest
    assume p: "idleSession c = (k, a) # rest"
    have kd: "keyed (heap c) ((k, a) # rest)" using pk p by (simp add: pool_keyed_def)
    then have key: "k = MaxUint64 - seq (heap c ! a)" by (simp add: keyed_def)
    have "sorted_wrt (<) (map fst ((k, a) # rest))"
      using kd unfolding keyed_def by (rule conjunct1)
    then have "skiplist_Remove (fst (k, a)) ((k, a) # rest) = rest"
      by (rule skiplist_Remove_head)
    then have g: "getIdleSession c = (c\<lparr>idleSession := rest\<rparr>, Some a)"
      using p by (simp add: getIdleSession_def)
    have newest: "\<forall>e \<in> set (idleSession c). seq (heap c ! snd e) \<le> seq (heap c ! a)"
      unfolding p using kd by (blast intro: keyed_newest)
    have cs: "\<not> die c \<longrightarrow>
            CreateStream now dialOK True c = (c\<lparr>idleSession := rest\<rparr>, Inr a)"
      using g by (simp add: CreateStream_def openStream_def)
    from key g newest cs
    show "k = MaxUint64 - seq (heap c ! a) \<and>
         getIdleSession c = (c\<lparr>idleSession := rest\<rparr>, Some a) \<and>
         (\<forall>e \<in> set (idleSession c). seq (heap c ! snd e) \<le> seq (heap c ! a)) \<and>
         (\<not> die c \<longrightarrow>
            CreateStream now dialOK True c = (c\<lparr>idleSession := rest\<rparr>, Inr a))"
      by blast
  qed
  from pk e n show ?thesis by blast
qed

theorem getIdleSession_newest_witness:
  "run (replicate 5 (EvCreator 0 0 True)) (NewClient idle_floor_config) = Some five_idle_client
   \<and> idleSession five_idle_client
       = (MaxUint64 - 5, 4) # [(MaxUint64 - 4, 3), (MaxUint64 - 3, 2), (MaxUint64 - 2, 1),
                              (MaxUint64 - 1, 0)]
   \<and> map seq (heap five_idle_client) = [1, 2, 3, 4, 5]
   \<and> snd (getIdleSession five_idle_client) = Some 4
   \<and> snd (CreateStream 1 True True five_idle_client) = Inr 4"
proof -
  have r: "run (replicate 5 (EvCreator 0 0 True)) (NewClient idle_floor_config)
             = Some five_idle_client"
    by code_simp
  have p: "idleSession five_idle_client
       = (MaxUint64 - 5, 4) # [(MaxUint64 - 4, 3), (MaxUint64 - 3, 2), (MaxUint64 - 2, 1),
                              (MaxUint64 - 1, 0)]"
    by code_simp
  have q: "map seq (heap five_idle_client) = [1, 2, 3, 4, 5]" by code_simp
  have d: "\<not> die five_idle_client" by code_simp
  note t = getIdleSession_newest [OF r, of 1 True]
  from t p have "snd (getIdleSession five_idle_client) = Some 4" by simp
  moreover from t p d have "snd (CreateStream 1 True True five_idle_client) = Inr 4" by simp
  ultimately show ?thesis using r p q by blast
qed

section \<open>Containment of the idle pool in the registry\<close>

text \<open>
  Sessions are numbered \<open>1, 2, ...\<close> in the order of their creation, so that two sessions
  have different numbers as long as the 64-bit counter has not wrapped around.
\<close>

lemma seq_number_inj:
  assumes "a < n" and "b < n" and "n < 2 ^ 64"
    and "(of_nat (Suc a) :: 64 word) = of_nat (Suc b)"
  shows "a = b"
proof -
  have la: "Suc a < 2 ^ 64" using assms(1,3) by (rule less_trans_Suc)
  have lb: "Suc b < 2 ^ 64" using assms(2,3) by (rule less_trans_Suc)
  have "take_bit LENGTH(64) (Suc a) = take_bit LENGTH(64) (Suc b)"
    using assms(4) by (simp only: word_of_nat_eq_iff)
  then have "take_bit 64 (Suc a) = take_bit 64 (Suc b)" by simp
  moreover have "take_bit 64 (Suc a) = Suc a" using la by (rule take_bit_nat_eq_self)
  moreover have "take_bit 64 (Suc b) = Suc b" using lb by (rule take_bit_nat_eq_self)
  ultimately have "Suc a = Suc b" by (simp only:)
  then show ?thesis by (simp only: Suc_inject)
qed

lemma set_map_store: "set (map_store k v m) \<subseteq> insert (k, v) (set m)"
  by (induction m) auto

lemma map_store_mem: "(k, v) \<in> set (map_store k v m)"
  by (induction m) auto

lemma map_store_other: "(k', v') \<in> set m \<Longrightarrow> k' \<noteq> k \<Longrightarrow> (k', v') \<in> set (map_store k v m)"
  by (induction m) auto

lemma set_map_delete: "set (map_delete k m) = {e \<in> set m. fst e \<noteq> k}"
  by (auto simp: map_delete_def)

lemma registry_invI:
  assumes "sessionCounter c = of_nat (length (heap c))"
    and "\<And>a. a < length (heap c) \<Longrightarrow> seq (heap c ! a) = of_nat (Suc a)"
    and "\<And>e. e \<in> set (idleSession c) \<Longrightarrow> \<not> closed (heap c ! snd e)"
    and "\<And>e. e \<in> set (sessions c) \<Longrightarrow> snd e < length (heap c)"
    and "\<And>a. a \<in> set todo \<Longrightarrow> a < length (heap c)"
    and "\<And>a. a < length (heap c) \<Longrightarrow> \<not> closed (heap c ! a) \<Longrightarrow>
           (seq (heap c ! a), a) \<in> set (sessions c) \<or> a \<in> set todo"
  shows "registry_inv todo c"
  using assms unfolding registry_inv_def by blast

lemma registry_inv_counter:
  "registry_inv todo c \<Longrightarrow> sessionCounter c = of_nat (length (heap c))"
  unfolding registry_inv_def by blast

lemma registry_inv_seq:
  "registry_inv todo c \<Longrightarrow> a < length (heap c) \<Longrightarrow> seq (heap c ! a) = of_nat (Suc a)"
  unfolding registry_inv_def by blast

lemma registry_inv_pool_open:
  "registry_inv todo c \<Longrightarrow> e \<in> set (idleSession c) \<Longrightarrow> \<not> closed (heap c ! snd e)"
  unfolding registry_inv_def by blast

lemma registry_inv_sessions_valid:
  "registry_inv todo c \<Longrightarrow> e \<in> set (sessions c) \<Longrightarrow> snd e < length (heap c)"
  unfolding registry_inv_def by blast

lemma registry_inv_todo_valid:
  "registry_inv todo c \<Longrightarrow> a \<in> set todo \<Longrightarrow> a < length (heap c)"
  unfolding registry_inv_def by blast

lemma registry_inv_open_registered:
  "registry_inv todo c \<Longrightarrow> a < length (heap c) \<Longrightarrow> \<not> closed (heap c ! a) \<Longrightarrow>
     (seq (heap c ! a), a) \<in> set (sessions c) \<or> a \<in> set todo"
  unfolding registry_inv_def by blast

lemma registry_inv_weaken:
  assumes "registry_inv todo c" and "a < length (heap c)"
  shows "registry_inv (a # todo) c"
proof (rule registry_invI)
  show "sessionCounter c = of_nat (length (heap c))"
    using assms(1) by (rule registry_inv_counter)
  show "\<And>a. a < length (heap c) \<Longrightarrow> seq (heap c ! a) = of_nat (Suc a)"
    using assms(1) by (rule registry_inv_seq)
  show "\<And>e. e \<in> set (idleSession c) \<Longrightarrow> \<not> closed (heap c ! snd e)"
    using assms(1) by (rule registry_inv_pool_open)
  show "\<And>e. e \<in> set (sessions c) \<Longrightarrow> snd e < length (heap c)"
    using assms(1) by (rule registry_inv_sessions_valid)
  show "\<And>b. b \<in> set (a # todo) \<Longrightarrow> b < length (heap c)"
    using assms registry_inv_todo_valid [OF assms(1)] by auto
  show "\<And>b. b < length (heap c) \<Longrightarrow> \<not> closed (heap c ! b) \<Longrightarrow>
           (seq (heap c ! b), b) \<in> set (sessions c) \<or> b \<in> set (a # todo)"
    using registry_inv_open_registered [OF assms(1)] by auto
qed

lemma registry_inv_frame:
  assumes inv: "registry_inv todo c"
    and valid: "\<And>e. e \<in> set (idleSession c) \<Longrightarrow> snd e < length (heap c)"
    and cnt: "sessionCounter c' = sessionCounter c"
    and len: "length (heap c') = length (heap c)"
    and sq: "\<And>i. i < length (heap c) \<Longrightarrow> seq (heap c' ! i) = seq (heap c ! i)"
    and cl: "\<And>i. i < length (heap c) \<Longrightarrow> closed (heap c' ! i) = closed (heap c ! i)"
    and pool: "set (idleSession c') \<subseteq> set (idleSession c)"
    and reg: "sessions c' = sessions c"
  shows "registry_inv todo c'"
proof (rule registry_invI)
  show "sessionCounter c' = of_nat (length (heap c'))"
    using registry_inv_counter [OF inv] cnt len by simp
  show "seq (heap c' ! a) = of_nat (Suc a)" if "a < length (heap c')" for a
    using that registry_inv_seq [OF inv, of a] sq [of a] len by simp
  show "\<not> closed (heap c' ! snd e)" if "e \<in> set (idleSession c')" for e
  proof -
    have m: "e \<in> set (idleSession c)" using that pool by blast
    then have "snd e < length (heap c)" by (rule valid)
    then show ?thesis using registry_inv_pool_open [OF inv m] cl by simp
  qed
  show "snd e < length (heap c')" if "e \<in> set (sessions c')" for e
    using that registry_inv_sessions_valid [OF inv, of e] reg len by simp
  show "a < length (heap c')" if "a \<in> set todo" for a
    using that registry_inv_todo_valid [OF inv, of a] len by simp
  show "(seq (heap c' ! a), a) \<in> set (sessions c') \<or> a \<in> set todo"
    if "a < length (heap c')" "\<not> closed (heap c' ! a)" for a
  proof -
    have a: "a < length (heap c)" using that(1) len by simp
    then have "\<not> closed (heap c ! a)" using that(2) cl by simp
    then show ?thesis
      using registry_inv_open_registered [OF inv a] sq [OF a] reg by simp
  qed
qed

lemma pool_keyed_valid:
  "pool_keyed c \<Longrightarrow> e \<in> set (idleSession c) \<Longrightarrow> snd e < length (heap c)"
  unfolding pool_keyed_def keyed_def by blast

lemma pool_keyed_key:
  "pool_keyed c \<Longrightarrow> e \<in> set (idleSession c) \<Longrightarrow> fst e = MaxUint64 - seq (heap c ! snd e)"
  unfolding pool_keyed_def keyed_def by blast

lemma registry_Session_Close:
  assumes inv: "registry_inv (a # todo) c" and pk: "pool_keyed c"
    and bound: "length (heap c) < 2 ^ 64"
  shows "registry_inv todo (Session_Close c a)"
proof (cases "closed (heap c ! a)")
  case True
  have "registry_inv todo c"
  proof (rule registry_invI)
    show "sessionCounter c = of_nat (length (heap c))"
      using inv by (rule registry_inv_counter)
    show "\<And>b. b < length (heap c) \<Longrightarrow> seq (heap c ! b) = of_nat (Suc b)"
      using inv by (rule registry_inv_seq)
    show "\<And>e. e \<in> set (idleSession c) \<Longrightarrow> \<not> closed (heap c ! snd e)"
      using inv by (rule registry_inv_pool_open)
    show "\<And>e. e \<in> set (sessions c) \<Longrightarrow> snd e < length (heap c)"
      using inv by (rule registry_inv_sessions_valid)
    show "\<And>b. b \<in> set todo \<Longrightarrow> b < length (heap c)"
      using registry_inv_todo_valid [OF inv] by simp
    show "(seq (heap c ! b), b) \<in> set (sessions c) \<or> b \<in> set todo"
      if "b < length (heap c)" "\<not> closed (heap c ! b)" for b
      using registry_inv_open_registered [OF inv that] that(2) True by auto
  qed
  then show ?thesis using True by (simp add: Session_Close_def)
next
  case False
  let ?h = "(heap c)[a := (heap c ! a)\<lparr>closed := True\<rparr>]"
  let ?c = "Session_Close c a"
  have a: "a < length (heap c)" using registry_inv_todo_valid [OF inv, of a] by simp
  have h: "heap ?c = ?h" using False by (simp add: Session_Close_def session_dieHook_def)
  have sq: "seq (?h ! i) = seq (heap c ! i)" for i by (simp add: nth_update_field)
  have p: "idleSession ?c = skiplist_Remove (MaxUint64 - seq (heap c ! a)) (idleSession c)"
    using False a by (simp add: Session_Close_def session_dieHook_def)
  have r: "sessions ?c = map_delete (seq (heap c ! a)) (sessions c)"
    using False a by (simp add: Session_Close_def session_dieHook_def)
  have n: "sessionCounter ?c = sessionCounter c"
    using False by (simp add: Session_Close_def session_dieHook_def)
  show ?thesis
  proof (rule registry_invI)
    show "sessionCounter ?c = of_nat (length (heap ?c))"
      using registry_inv_counter [OF inv] by (simp add: n h)
    show "seq (heap ?c ! b) = of_nat (Suc b)" if "b < length (heap ?c)" for b
      using that registry_inv_seq [OF inv, of b] by (simp add: h sq)
    show "\<not> closed (heap ?c ! snd e)" if "e \<in> set (idleSession ?c)" for e
    proof -
      have m: "e \<in> set (idleSession c)" and k: "fst e \<noteq> MaxUint64 - seq (heap c ! a)"
        using that by (simp_all add: p set_skiplist_Remove)
      have "snd e \<noteq> a" using pool_keyed_key [OF pk m] k by auto
      then show ?thesis using registry_inv_pool_open [OF inv m] by (simp add: h)
    qed
    show "snd e < length (heap ?c)" if "e \<in> set (sessions ?c)" for e
      using that registry_inv_sessions_valid [OF inv, of e] by (simp add: r h set_map_delete)
    show "b < length (heap ?c)" if "b \<in> set todo" for b
      using that registry_inv_todo_valid [OF inv, of b] by (simp add: h)
    show "(seq (heap ?c ! b), b) \<in> set (sessions ?c) \<or> b \<in> set todo"
      if "b < length (heap ?c)" "\<not> closed (heap ?c ! b)" for b
    proof -
      have b: "b < length (heap c)" using that(1) by (simp add: h)
      have ne: "b \<noteq> a" using that(2) a by (auto simp: h)
      then have "\<not> closed (heap c ! b)" using that(2) by (simp add: h)
      then have d: "(seq (heap c ! b), b) \<in> set (sessions c) \<or> b \<in> set todo"
        using registry_inv_open_registered [OF inv b] ne by auto
      have "seq (heap c ! b) \<noteq> seq (heap c ! a)"
      proof
        assume "seq (heap c ! b) = seq (heap c ! a)"
        then have "(of_nat (Suc b) :: 64 word) = of_nat (Suc a)"
          using registry_inv_seq [OF inv b] registry_inv_seq [OF inv a] by simp
        then have "b = a" using b a bound seq_number_inj by blast
        then show False using ne by simp
      qed
      then show ?thesis using d by (auto simp: r h sq set_map_delete)
    qed
  qed
qed

lemma registry_close_all:
  assumes "registry_inv (as @ todo) c" and "pool_keyed c" and "length (heap c) < 2 ^ 64"
  shows "registry_inv todo (close_all as c)"
  using assms
proof (induction as arbitrary: c)
  case Nil
  then show ?case by (simp add: close_all_def)
next
  case (Cons a as)
  have 1: "registry_inv (as @ todo) (Session_Close c a)"
    using Cons.prems by (simp add: registry_Session_Close)
  have 2: "pool_keyed (Session_Close c a)" using Cons.prems(2) by (rule keyed_Session_Close)
  have 3: "length (heap (Session_Close c a)) < 2 ^ 64"
    using Cons.prems(3) by (simp add: Session_Close_heap_length)
  show ?case using Cons.IH [OF 1 2 3] by (simp add: close_all_def)
qed

lemma registry_inv_todo:
  assumes "registry_inv [] c" and "\<forall>a \<in> set as. a < length (heap c)"
  shows "registry_inv as c"
  using assms
proof (induction as)
  case Nil
  then show ?case by simp
next
  case (Cons a as)
  then show ?case by (simp add: registry_inv_weaken)
qed

lemma registry_close_all_todo:
  assumes "registry_inv as c" and "pool_keyed c" and "length (heap c) < 2 ^ 64"
  shows "registry_inv [] (close_all as c)"
proof -
  have "registry_inv (as @ []) c" using assms(1) by simp
  then show ?thesis using assms(2,3) by (rule registry_close_all)
qed

lemma registry_createSession:
  assumes inv: "registry_inv todo c" and pk: "pool_keyed c"
    and bound: "length (heap (fst (createSession now dialOK c))) < 2 ^ 64"
  shows "registry_inv todo (fst (createSession now dialOK c))"
proof (cases dialOK)
  case False
  then show ?thesis using inv by (simp add: createSession_def)
next
  case True
  let ?n = "sessionCounter c + 1"
  let ?a = "length (heap c)"
  let ?s = "\<lparr>seq = ?n, createdAt = now, idleSince = 0, closed = False\<rparr>"
  let ?c = "fst (createSession now dialOK c)"
  have h: "heap ?c = heap c @ [?s]" and p: "idleSession ?c = idleSession c"
    and r: "sessions ?c = map_store ?n ?a (sessions c)" and n: "sessionCounter ?c = ?n"
    using True by (simp_all add: createSession_def Let_def)
  have num: "?n = of_nat (Suc ?a)" using registry_inv_counter [OF inv] by simp
  have b64: "Suc ?a < 2 ^ 64" using bound by (simp only: h length_append_singleton)
  show ?thesis
  proof (rule registry_invI)
    show "sessionCounter ?c = of_nat (length (heap ?c))"
      by (simp only: n num h length_append_singleton)
    show "seq (heap ?c ! b) = of_nat (Suc b)" if "b < length (heap ?c)" for b
    proof (cases "b < ?a")
      case True
      then show ?thesis using registry_inv_seq [OF inv True] by (simp add: h nth_append)
    next
      case False
      then have "b = ?a" using that by (simp add: h)
      then show ?thesis using num by (simp add: h)
    qed
    show "\<not> closed (heap ?c ! snd e)" if "e \<in> set (idleSession ?c)" for e
    proof -
      have m: "e \<in> set (idleSession c)" using that by (simp add: p)
      have "snd e < ?a" using pk m by (rule pool_keyed_valid)
      then show ?thesis using registry_inv_pool_open [OF inv m] by (simp add: h nth_append)
    qed
    show "snd e < length (heap ?c)" if "e \<in> set (sessions ?c)" for e
    proof -
      have "e = (?n, ?a) \<or> e \<in> set (sessions c)"
        using that set_map_store [of ?n ?a "sessions c"] by (auto simp: r)
      then show ?thesis using registry_inv_sessions_valid [OF inv, of e] by (auto simp: h)
    qed
    show "b < length (heap ?c)" if "b \<in> set todo" for b
      using that registry_inv_todo_valid [OF inv, of b] by (simp add: h)
    show "(seq (heap ?c ! b), b) \<in> set (sessions ?c) \<or> b \<in> set todo"
      if "b < length (heap ?c)" "\<not> closed (heap ?c ! b)" for b
    proof (cases "b < ?a")
      case False
      then have "b = ?a" using that(1) by (simp add: h)
      then show ?thesis by (simp add: h r map_store_mem)
    next
      case True
      then have o: "\<not> closed (heap c ! b)" using that(2) by (simp add: h nth_append)
      have sb: "seq (heap c ! b) = of_nat (Suc b)" using inv True by (rule registry_inv_seq)
      have "seq (heap c ! b) \<noteq> ?n"
      proof
        assume "seq (heap c ! b) = ?n"
        then have "(of_nat (Suc b) :: 64 word) = of_nat (Suc ?a)" using sb num by simp
        moreover have "b < Suc ?a" "?a < Suc ?a" using True by simp_all
        ultimately have "b = ?a" using b64 seq_number_inj by blast
        then show False using True by simp
      qed
      then show ?thesis
        using registry_inv_open_registered [OF inv True o] True
        by (auto simp: h r nth_append intro: map_store_other)
    qed
  qed
qed

lemma update_idleSince_nth:
  "seq (h[a := (h ! a)\<lparr>idleSince := t\<rparr>] ! i) = seq (h ! i)"
  "closed (h[a := (h ! a)\<lparr>idleSince := t\<rparr>] ! i) = closed (h ! i)"
  by (simp_all add: nth_update_field)

lemma registry_put:
  assumes inv: "registry_inv todo c" and pk: "pool_keyed c"
    and a: "a < length (heap c)" and "open": "\<not> closed (heap c ! a)"
  shows "registry_inv todo
           (c\<lparr>heap := (heap c)[a := (heap c ! a)\<lparr>idleSince := t\<rparr>],
              idleSession := skiplist_Insert (MaxUint64 - seq (heap c ! a)) a (idleSession c)\<rparr>)"
    (is "registry_inv todo ?c")
proof (rule registry_invI)
  show "sessionCounter ?c = of_nat (length (heap ?c))"
    using registry_inv_counter [OF inv] by simp
  show "seq (heap ?c ! b) = of_nat (Suc b)" if "b < length (heap ?c)" for b
    using that registry_inv_seq [OF inv, of b] by (simp add: update_idleSince_nth)
  show "\<not> closed (heap ?c ! snd e)" if "e \<in> set (idleSession ?c)" for e
  proof -
    have "e = (MaxUint64 - seq (heap c ! a), a) \<or> e \<in> set (idleSession c)"
      using that set_skiplist_Insert [of "MaxUint64 - seq (heap c ! a)" a "idleSession c"]
      by auto
    then have "\<not> closed (heap c ! snd e)"
      using "open" registry_inv_pool_open [OF inv, of e] by auto
    then show ?thesis by (simp add: update_idleSince_nth)
  qed
  show "snd e < length (heap ?c)" if "e \<in> set (sessions ?c)" for e
    using that registry_inv_sessions_valid [OF inv, of e] by simp
  show "b < length (heap ?c)" if "b \<in> set todo" for b
    using that registry_inv_todo_valid [OF inv, of b] by simp
  show "(seq (heap ?c ! b), b) \<in> set (sessions ?c) \<or> b \<in> set todo"
    if "b < length (heap ?c)" "\<not> closed (heap ?c ! b)" for b
  proof -
    have b: "b < length (heap c)" using that(1) by simp
    have o: "\<not> closed (heap c ! b)" using that(2) by (simp add: update_idleSince_nth)
    show ?thesis using registry_inv_open_registered [OF inv b o]
      by (simp add: update_idleSince_nth)
  qed
qed

lemma registry_cleanup_visit:
  assumes "registry_inv todo (cl st)" and "pool_keyed (cl st)"
  shows "registry_inv todo (cl (cleanup_visit now e st))"
  using assms(1)
proof (rule registry_inv_frame)
  show "\<And>x. x \<in> set (idleSession (cl st)) \<Longrightarrow> snd x < length (heap (cl st))"
    using assms(2) by (rule pool_keyed_valid)
  show "set (idleSession (cl (cleanup_visit now e st))) \<subseteq> set (idleSession (cl st))"
    by (auto simp: visit_idleSession set_skiplist_Remove)
  show "sessionCounter (cl (cleanup_visit now e st)) = sessionCounter (cl st)"
    by (rule visit_config)
  show "length (heap (cl (cleanup_visit now e st))) = length (heap (cl st))"
    by (rule visit_heap_length)
  show "\<And>i. i < length (heap (cl st)) \<Longrightarrow>
          seq (heap (cl (cleanup_visit now e st)) ! i) = seq (heap (cl st) ! i)"
    by (rule visit_heap_nth)
  show "\<And>i. i < length (heap (cl st)) \<Longrightarrow>
          closed (heap (cl (cleanup_visit now e st)) ! i) = closed (heap (cl st) ! i)"
    by (rule visit_heap_nth)
  show "sessions (cl (cleanup_visit now e st)) = sessions (cl st)"
    by (rule visit_config)
qed

lemma registry_cleanup_fold:
  "registry_inv todo (cl st) \<Longrightarrow> pool_keyed (cl st) \<Longrightarrow>
     registry_inv todo (cl (fold (cleanup_visit now) es st))"
proof (induction es arbitrary: st)
  case Nil
  then show ?case by simp
next
  case (Cons e es)
  have 1: "registry_inv todo (cl (cleanup_visit now e st))"
    using Cons.prems by (rule registry_cleanup_visit)
  have 2: "pool_keyed (cl (cleanup_visit now e st))"
    using Cons.prems(2) by (rule keyed_cleanup_visit)
  show ?case using Cons.IH [OF 1 2] by simp
qed

lemma getIdleSession_heap: "heap (fst (getIdleSession c)) = heap c"
  by (simp add: getIdleSession_def split: list.splits)

lemma createSession_heap_length:
  "length (heap c) \<le> length (heap (fst (createSession now dialOK c)))"
  by (simp add: createSession_def Let_def)

lemma registry_NewClient: "registry_inv [] (NewClient config)"
  by (simp add: registry_inv_def NewClient_def)

text \<open>
  The operations of the client are made of the steps: the proactive creator is
  \<open>createSession\<close> followed by an insertion, the stream hook is its two tests followed by an
  insertion or a close, \<open>Close\<close> is its snapshot followed by the closes, a tick is its scan
  followed by the closes.
\<close>

lemma proactive_creator_steps:
  "proactive_creator tCreated tIdle dialOK c =
     (case createSession tCreated dialOK c of
        (c1, None) \<Rightarrow> c1
      | (c1, Some a) \<Rightarrow> pool_insert tIdle a c1)"
  by (simp add: proactive_creator_def pool_insert_def)

lemma stream_dieHook_steps:
  "stream_dieHook now a c =
     (if closed (heap c ! a) then c
      else if die c then Session_Close c a else pool_insert now a c)"
  by (simp add: stream_dieHook_def pool_insert_def)

lemma Close_steps: "Close c = close_all (snd (Close_snapshot c)) (fst (Close_snapshot c))"
  by (simp add: Close_def split: prod.splits)

lemma cleanup_steps:
  "fst (cleanup now c)
     = close_all (ageSessionsToClose (cleanup_scan now c))
         (close_all (idleSessionsToClose (cleanup_scan now c)) (cl (cleanup_scan now c)))"
  by (simp add: cleanup_def Let_def)

lemma registry_getIdleSession_closing:
  assumes "registry_inv todo c" and "pool_keyed c"
  shows "registry_inv todo (fst (getIdleSession c))"
proof (cases "idleSession c")
  case Nil
  then show ?thesis using assms(1) by (simp add: getIdleSession_def)
next
  case (Cons e es)
  have "registry_inv todo (c\<lparr>idleSession := skiplist_Remove (fst e) (idleSession c)\<rparr>)"
    using assms(1)
  proof (rule registry_inv_frame)
    show "\<And>x. x \<in> set (idleSession c) \<Longrightarrow> snd x < length (heap c)"
      using assms(2) by (rule pool_keyed_valid)
  qed (auto simp: set_skiplist_Remove)
  then show ?thesis using Cons by (simp add: getIdleSession_def)
qed

lemma registry_Session_Close_closing:
  assumes "registry_inv todo c" and "pool_keyed c" and "a < length (heap c)"
    and "length (heap c) < 2 ^ 64"
  shows "registry_inv todo (Session_Close c a)"
proof -
  have "registry_inv (a # todo) c" using assms(1,3) by (rule registry_inv_weaken)
  then show ?thesis using assms(2,4) by (rule registry_Session_Close)
qed

lemma registry_scan:
  assumes "registry_inv todo c" and "pool_keyed c"
  shows "registry_inv todo (cl (cleanup_scan now c))"
  using assms by (simp add: cleanup_scan_def registry_cleanup_fold cleanup_init_def)

lemma keyed_scan: "pool_keyed c \<Longrightarrow> pool_keyed (cl (cleanup_scan now c))"
  by (simp add: cleanup_scan_def keyed_cleanup_fold cleanup_init_def)

lemma scan_heap_length: "length (heap (cl (cleanup_scan now c))) = length (heap c)"
  by (simp add: cleanup_scan_def fold_visit_heap_length cleanup_init_def)

lemma registry_Close_snapshot:
  assumes inv: "registry_inv todo c"
  shows "registry_inv (todo @ snd (Close_snapshot c)) (fst (Close_snapshot c))"
proof -
  let ?c = "c\<lparr>die := True, sessions := []\<rparr>"
  have "registry_inv (todo @ map snd (sessions c)) ?c"
  proof (rule registry_invI)
    show "sessionCounter ?c = of_nat (length (heap ?c))"
      using registry_inv_counter [OF inv] by simp
    show "\<And>a. a < length (heap ?c) \<Longrightarrow> seq (heap ?c ! a) = of_nat (Suc a)"
      using registry_inv_seq [OF inv] by simp
    show "\<And>e. e \<in> set (idleSession ?c) \<Longrightarrow> \<not> closed (heap ?c ! snd e)"
      using registry_inv_pool_open [OF inv] by simp
    show "\<And>e. e \<in> set (sessions ?c) \<Longrightarrow> snd e < length (heap ?c)"
      by simp
    show "\<And>a. a \<in> set (todo @ map snd (sessions c)) \<Longrightarrow> a < length (heap ?c)"
      using registry_inv_sessions_valid [OF inv] registry_inv_todo_valid [OF inv] by auto
    show "(seq (heap ?c ! a), a) \<in> set (sessions ?c) \<or> a \<in> set (todo @ map snd (sessions c))"
      if "a < length (heap ?c)" "\<not> closed (heap ?c ! a)" for a
    proof -
      have "(seq (heap c ! a), a) \<in> set (sessions c) \<or> a \<in> set todo"
        using registry_inv_open_registered [OF inv, of a] that by simp
      then have "a \<in> snd ` set (sessions c) \<or> a \<in> set todo" by force
      then show ?thesis by auto
    qed
  qed
  then show ?thesis by (simp add: Close_snapshot_def Let_def)
qed

lemma keyed_Close_snapshot: "pool_keyed c \<Longrightarrow> pool_keyed (fst (Close_snapshot c))"
  by (simp add: Close_snapshot_def Let_def pool_keyed_def)

lemma Close_snapshot_heap: "heap (fst (Close_snapshot c)) = heap c"
  by (simp add: Close_snapshot_def Let_def)

lemma keyed_pool_insert:
  "pool_keyed c \<Longrightarrow> a < length (heap c) \<Longrightarrow> pool_keyed (pool_insert now a c)"
  unfolding pool_insert_def by (rule keyed_put)

lemma registry_pool_insert:
  "registry_inv todo c \<Longrightarrow> pool_keyed c \<Longrightarrow> a < length (heap c) \<Longrightarrow>
     \<not> closed (heap c ! a) \<Longrightarrow> registry_inv todo (pool_insert now a c)"
  unfolding pool_insert_def by (rule registry_put)

lemma pool_insert_heap_length: "length (heap (pool_insert now a c)) = length (heap c)"
  by (simp add: pool_insert_def)


lemma apply_step_heap_length:
  "length (heap (client s)) \<le> length (heap (client (apply_step st s)))"
  by (cases st)
    (simp_all add: createSession_heap_length getIdleSession_heap pool_insert_heap_length
      Session_Close_heap_length scan_heap_length Close_snapshot_heap split: list.splits)

lemma steps_run_heap_length:
  "steps_run sts s = Some s' \<Longrightarrow> length (heap (client s)) \<le> length (heap (client s'))"
proof (induction sts arbitrary: s)
  case Nil
  then show ?case by simp
next
  case (Cons st sts)
  have "steps_run sts (apply_step st s) = Some s'" using Cons.prems by (simp split: if_splits)
  then have "length (heap (client (apply_step st s))) \<le> length (heap (client s'))"
    by (rule Cons.IH)
  then show ?case using apply_step_heap_length [of s st] by (rule order_trans [rotated])
qed

lemma keyed_apply_step:
  assumes "pool_keyed (client s)" and "step_ok st s"
  shows "pool_keyed (client (apply_step st s))"
  using assms
  by (cases st)
    (simp_all add: keyed_createSession keyed_getIdleSession keyed_pool_insert
      keyed_Session_Close keyed_scan keyed_Close_snapshot split: list.splits)

lemma registry_apply_step:
  assumes inv: "registry_inv (closing s) (client s)" and pk: "pool_keyed (client s)"
    and ok: "step_ok st s" and op: "insert_open st s"
    and bound: "length (heap (client (apply_step st s))) < 2 ^ 64"
  shows "registry_inv (closing (apply_step st s)) (client (apply_step st s))"
proof (cases st)
  case (StCreateSession now dialOK)
  then show ?thesis using inv pk bound by (simp add: registry_createSession)
next
  case StGetIdleSession
  then show ?thesis using inv pk by (simp add: registry_getIdleSession_closing)
next
  case (StInsert now a)
  then show ?thesis using inv pk ok op by (simp add: registry_pool_insert)
next
  case (StSessionClose a)
  then show ?thesis using inv pk ok bound
    by (simp add: registry_Session_Close_closing Session_Close_heap_length)
next
  case (StScan now)
  then show ?thesis using inv pk by (simp add: registry_scan)
next
  case StCloseSnapshot
  then show ?thesis using inv by (simp add: registry_Close_snapshot)
next
  case StCloseNext
  show ?thesis
  proof (cases "closing s")
    case Nil
    then show ?thesis using StCloseNext inv by simp
  next
    case (Cons a rest)
    have b: "length (heap (client s)) < 2 ^ 64"
      using bound StCloseNext Cons by (simp add: Session_Close_heap_length)
    have "registry_inv (a # rest) (client s)" using inv Cons by simp
    then have "registry_inv rest (Session_Close (client s) a)"
      using pk b by (rule registry_Session_Close)
    then show ?thesis using StCloseNext Cons by simp
  qed
qed

lemma registry_steps_run:
  assumes "registry_inv (closing s) (client s)" and "pool_keyed (client s)"
    and "steps_run sts s = Some s'" and "inserts_open sts s"
    and "length (heap (client s')) < 2 ^ 64"
  shows "registry_inv (closing s') (client s') \<and> pool_keyed (client s')"
  using assms
proof (induction sts arbitrary: s)
  case Nil
  then show ?case by simp
next
  case (Cons st sts)
  let ?s = "apply_step st s"
  have ok: "step_ok st s" and r: "steps_run sts ?s = Some s'"
    using Cons.prems(3) by (simp_all split: if_splits)
  have op: "insert_open st s" and ops: "inserts_open sts ?s"
    using Cons.prems(4) by simp_all
  have "length (heap (client ?s)) \<le> length (heap (client s'))"
    using r by (rule steps_run_heap_length)
  then have b: "length (heap (client ?s)) < 2 ^ 64"
    using Cons.prems(5) by (rule le_less_trans)
  have i: "registry_inv (closing ?s) (client ?s)"
    using Cons.prems(1,2) ok op b by (rule registry_apply_step)
  have k: "pool_keyed (client ?s)" using Cons.prems(2) ok by (rule keyed_apply_step)
  show ?case using i k r ops Cons.prems(5) by (rule Cons.IH)
qed

lemma registry_containment_closing:
  assumes "registry_inv todo c" and "pool_keyed c"
  shows "IdlePool c \<subseteq> SessionRegistry c \<union> set todo"
proof
  fix a
  assume "a \<in> IdlePool c"
  then obtain k where m: "(k, a) \<in> set (idleSession c)" by (auto simp: IdlePool_def)
  have v: "a < length (heap c)" using pool_keyed_valid [OF assms(2) m] by simp
  have o: "\<not> closed (heap c ! a)" using registry_inv_pool_open [OF assms(1) m] by simp
  have "(seq (heap c ! a), a) \<in> set (sessions c) \<or> a \<in> set todo"
    using assms(1) v o by (rule registry_inv_open_registered)
  then show "a \<in> SessionRegistry c \<union> set todo" by (force simp: SessionRegistry_def)
qed

subsection \<open>The counter wraps around\<close>

lemma steps_run_append:
  "steps_run (xs @ ys) s = (case steps_run xs s of None \<Rightarrow> None | Some s' \<Rightarrow> steps_run ys s')"
  by (induction xs arbitrary: s) simp_all

lemma steps_run_fold: "steps_run xs s = Some s' \<Longrightarrow> s' = fold apply_step xs s"
  by (induction xs arbitrary: s) (simp_all split: if_splits)

lemma inserts_open_append:
  "inserts_open (xs @ ys) s = (inserts_open xs s \<and> inserts_open ys (fold apply_step xs s))"
  by (induction xs arbitrary: s) simp_all

lemma churn_Suc: "churn (Suc k) = churn k @ [StCreateSession 0 True, StSessionClose (Suc k)]"
  by (simp add: churn_def)

lemma number_not_one:
  assumes "Suc i < 2 ^ 64"
  shows "(of_nat (Suc (Suc i)) :: 64 word) \<noteq> 1"
proof
  assume "(of_nat (Suc (Suc i)) :: 64 word) = 1"
  then have "(of_nat (Suc i) :: 64 word) + 1 = 0 + 1" by simp
  then have "(of_nat (Suc i) :: 64 word) = 0" by (simp only: add_right_cancel)
  then have "2 ^ LENGTH(64) dvd Suc i" by (simp only: word_of_nat_eq_0_iff)
  then have "(2::nat) ^ 64 dvd Suc i" by simp
  then have "(2::nat) ^ 64 \<le> Suc i" by (rule dvd_imp_le) simp
  then have "\<not> Suc i < 2 ^ 64" by (simp only: not_less)
  then show False using assms by (rule notE)
qed

lemma number_wraps: "(of_nat (Suc (2 ^ 64 - 1)) :: 64 word) = 0"
proof -
  have "Suc (2 ^ 64 - 1) = (2::nat) ^ 64" by simp
  then have "(of_nat (Suc (2 ^ 64 - 1)) :: 64 word) = of_nat (2 ^ LENGTH(64))" by simp
  then show ?thesis by (simp only: of_nat_2p)
qed


lemma churn_round:
  assumes c: "sessionCounter (client s) = of_nat (Suc k)"
    and l: "length (heap (client s)) = Suc k"
    and r: "sessions (client s) = [(1, 0)]"
    and p: "idleSession (client s) = []"
    and q: "seq (heap (client s) ! 0) = 1"
    and o: "\<not> closed (heap (client s) ! 0)"
    and t: "closing s = []"
    and n: "(of_nat (Suc (Suc k)) :: 64 word) \<noteq> 1"
  shows "step_ok (StSessionClose (Suc k)) (apply_step (StCreateSession 0 True) s)
   \<and> sessionCounter (client (apply_step (StSessionClose (Suc k))
         (apply_step (StCreateSession 0 True) s))) = of_nat (Suc (Suc k))
   \<and> length (heap (client (apply_step (StSessionClose (Suc k))
         (apply_step (StCreateSession 0 True) s)))) = Suc (Suc k)
   \<and> sessions (client (apply_step (StSessionClose (Suc k))
         (apply_step (StCreateSession 0 True) s))) = [(1, 0)]
   \<and> idleSession (client (apply_step (StSessionClose (Suc k))
         (apply_step (StCreateSession 0 True) s))) = []
   \<and> seq (heap (client (apply_step (StSessionClose (Suc k))
         (apply_step (StCreateSession 0 True) s))) ! 0) = 1
   \<and> \<not> closed (heap (client (apply_step (StSessionClose (Suc k))
         (apply_step (StCreateSession 0 True) s))) ! 0)
   \<and> closing (apply_step (StSessionClose (Suc k))
         (apply_step (StCreateSession 0 True) s)) = []"
proof -
  let ?n = "of_nat (Suc (Suc k)) :: 64 word"
  let ?new = "\<lparr>seq = ?n, createdAt = 0, idleSince = 0, closed = False\<rparr>"
  let ?c1 = "fst (createSession 0 True (client s))"
  let ?c2 = "Session_Close ?c1 (Suc k)"
  have n1: "?n \<noteq> 1" by (rule n)
  have n2: "1 \<noteq> ?n" using n by (rule not_sym)
  have num: "sessionCounter (client s) + 1 = ?n" using c by simp
  have c1: "?c1 = (client s)\<lparr>sessionCounter := ?n, heap := heap (client s) @ [?new],
               sessions := [(1, 0), (?n, Suc k)]\<rparr>"
    using l r n2 by (simp add: createSession_def Let_def num del: of_nat_Suc)
  have h1: "heap ?c1 ! Suc k = ?new"
    unfolding c1 using l by (simp add: nth_append del: of_nat_Suc)
  have l1: "length (heap ?c1) = Suc (Suc k)" unfolding c1 using l by simp
  have p1: "idleSession ?c1 = []" unfolding c1 using p by simp
  have r1: "sessions ?c1 = [(1, 0), (?n, Suc k)]" unfolding c1 by simp
  have cn: "sessionCounter ?c1 = ?n" unfolding c1 by simp
  have z1: "heap ?c1 ! 0 = heap (client s) ! 0"
    unfolding c1 using l by (simp add: nth_append)
  have nc: "\<not> closed (heap ?c1 ! Suc k)" by (simp only: h1) simp
  have sq: "seq (heap ?c1 ! Suc k) = ?n" by (simp only: h1) simp
  have hc: "heap ?c2 = (heap ?c1)[Suc k := (heap ?c1 ! Suc k)\<lparr>closed := True\<rparr>]"
    and pc: "idleSession ?c2 = skiplist_Remove (MaxUint64 - ?n) (idleSession ?c1)"
    and rc: "sessions ?c2 = map_delete ?n (sessions ?c1)"
    and cc: "sessionCounter ?c2 = sessionCounter ?c1"
    using nc sq l1 by (simp_all add: Session_Close_def session_dieHook_def del: of_nat_Suc)
  have 1: "step_ok (StSessionClose (Suc k)) (apply_step (StCreateSession 0 True) s)"
    using l1 by simp
  have 2: "sessionCounter ?c2 = ?n" by (simp only: cc cn)
  have 3: "length (heap ?c2) = Suc (Suc k)" by (simp only: hc length_list_update l1)
  have 4: "sessions ?c2 = [(1, 0)]"
    using n2 by (simp add: rc r1 map_delete_def del: of_nat_Suc)
  have 5: "idleSession ?c2 = []" by (simp add: pc p1 skiplist_Remove_def)
  have z2: "heap ?c2 ! 0 = heap ?c1 ! 0" by (simp add: hc)
  have 6: "seq (heap ?c2 ! 0) = 1" using q by (simp only: z2 z1)
  have 7: "\<not> closed (heap ?c2 ! 0)" using o by (simp add: z2 z1)
  have 8: "closing (apply_step (StSessionClose (Suc k))
         (apply_step (StCreateSession 0 True) s)) = []"
    using t by simp
  have e: "client (apply_step (StSessionClose (Suc k))
         (apply_step (StCreateSession 0 True) s)) = ?c2"
    by simp
  from 1 2 3 4 5 6 7 8 show ?thesis by (simp only: e) simp
qed


lemma churned_round:
  assumes "churned k s" and "(of_nat (Suc (Suc k)) :: 64 word) \<noteq> 1"
  shows "step_ok (StSessionClose (Suc k)) (apply_step (StCreateSession 0 True) s)
   \<and> churned (Suc k)
        (apply_step (StSessionClose (Suc k)) (apply_step (StCreateSession 0 True) s))"
proof -
  have c: "sessionCounter (client s) = of_nat (Suc k)"
    and l: "length (heap (client s)) = Suc k"
    and r: "sessions (client s) = [(1, 0)]"
    and p: "idleSession (client s) = []"
    and q: "seq (heap (client s) ! 0) = 1"
    and o: "\<not> closed (heap (client s) ! 0)"
    and t: "closing s = []"
    using assms(1) unfolding churned_def by blast+
  show ?thesis
    using churn_round [OF c l r p q o t assms(2)] unfolding churned_def by blast
qed

lemma churn_state:
  assumes "churned 0 s" and "\<And>i. i < k \<Longrightarrow> Suc i < 2 ^ 64"
  shows "steps_run (churn k) s = Some (fold apply_step (churn k) s)
   \<and> inserts_open (churn k) s
   \<and> churned k (fold apply_step (churn k) s)"
  using assms(2)
proof (induction k)
  case 0
  show ?case using assms(1) by (simp add: churn_def)
next
  case (Suc k)
  let ?s = "fold apply_step (churn k) s"
  let ?s1 = "apply_step (StCreateSession 0 True) ?s"
  let ?s2 = "apply_step (StSessionClose (Suc k)) ?s1"
  have ih: "steps_run (churn k) s = Some ?s" "inserts_open (churn k) s" "churned k ?s"
    using Suc.IH Suc.prems by simp_all
  have "Suc k < 2 ^ 64" using Suc.prems [of k] by simp
  then have n: "(of_nat (Suc (Suc k)) :: 64 word) \<noteq> 1" by (rule number_not_one)
  have rd: "step_ok (StSessionClose (Suc k)) ?s1" "churned (Suc k) ?s2"
    using churned_round [OF ih(3) n] by simp_all
  have f: "fold apply_step (churn (Suc k)) s = ?s2" by (simp add: churn_Suc)
  have 1: "steps_run (churn (Suc k)) s = Some ?s2"
    using ih(1) rd(1) by (simp add: churn_Suc steps_run_append)
  have 2: "inserts_open (churn (Suc k)) s"
    using ih(2) by (simp add: churn_Suc inserts_open_append)
  show ?case using 1 2 rd(2) by (simp only: f)
qed


lemma churned_start: "churned 0 (apply_step (StCreateSession 0 True) (start zero_ClientConfig))"
  by (simp add: churned_def start_def NewClient_def zero_ClientConfig_def createSession_def
      Let_def)

lemma below_wrap: "i < 2 ^ 64 - 1 \<Longrightarrow> Suc i < 2 ^ 64"
  by (simp only: less_diff_conv Suc_eq_plus1)

lemma wrapped_tail:
  assumes c: "sessionCounter (client s) = 0"
    and l: "length (heap (client s)) = Suc n"
    and r: "sessions (client s) = [(1, 0)]"
    and p: "idleSession (client s) = []"
    and q: "seq (heap (client s) ! 0) = 1"
    and o: "\<not> closed (heap (client s) ! 0)"
    and t: "closing s = []"
  shows "step_ok (StInsert 0 0) (apply_step (StCreateSession 0 True) s)
   \<and> insert_open (StInsert 0 0) (apply_step (StCreateSession 0 True) s)
   \<and> closing (apply_step (StInsert 0 0) (apply_step (StCreateSession 0 True) s)) = []
   \<and> idleSession (client (apply_step (StInsert 0 0) (apply_step (StCreateSession 0 True) s)))
       = [(MaxUint64 - 1, 0)]
   \<and> sessions (client (apply_step (StInsert 0 0) (apply_step (StCreateSession 0 True) s)))
       = [(1, Suc n)]"
proof -
  let ?c3 = "fst (createSession 0 True (client s))"
  have h3: "heap ?c3 ! 0 = heap (client s) ! 0"
    using l by (simp add: createSession_def Let_def nth_append)
  have l3: "0 < length (heap ?c3)" by (simp add: createSession_def Let_def)
  have p3: "idleSession ?c3 = []" using p by (simp add: createSession_def Let_def)
  have r3: "sessions ?c3 = [(1, Suc n)]"
    using c r l by (simp add: createSession_def Let_def)
  have 1: "step_ok (StInsert 0 0) (apply_step (StCreateSession 0 True) s)"
    using l3 by simp
  have 2: "insert_open (StInsert 0 0) (apply_step (StCreateSession 0 True) s)"
    using o by (simp add: h3)
  have 3: "closing (apply_step (StInsert 0 0) (apply_step (StCreateSession 0 True) s)) = []"
    using t by simp
  have 4: "idleSession (client (apply_step (StInsert 0 0) (apply_step (StCreateSession 0 True) s)))
       = [(MaxUint64 - 1, 0)]"
    using q by (simp add: pool_insert_def p3 h3)
  have 5: "sessions (client (apply_step (StInsert 0 0) (apply_step (StCreateSession 0 True) s)))
       = [(1, Suc n)]"
    by (simp add: pool_insert_def r3)
  from 1 2 3 4 5 show ?thesis by blast
qed

lemma wrapped_state:
  "steps_run wrapped_history (start zero_ClientConfig) = Some wrapped_sys
   \<and> inserts_open wrapped_history (start zero_ClientConfig)
   \<and> closing wrapped_sys = []
   \<and> idleSession (client wrapped_sys) = [(MaxUint64 - 1, 0)]
   \<and> sessions (client wrapped_sys) = [(1, Suc (2 ^ 64 - 1))]"
proof -
  define N :: nat where "N = 2 ^ 64 - 1"
  define s0 where "s0 = start zero_ClientConfig"
  define s1 where "s1 = apply_step (StCreateSession 0 True) s0"
  define sN where "sN = fold apply_step (churn N) s1"
  define s4 where "s4 = apply_step (StInsert 0 0) (apply_step (StCreateSession 0 True) sN)"
  have cs: "churned 0 s1" unfolding s1_def s0_def by (rule churned_start)
  have bw: "\<And>i. i < N \<Longrightarrow> Suc i < 2 ^ 64" unfolding N_def by (rule below_wrap)
  have ch: "steps_run (churn N) s1 = Some sN" "inserts_open (churn N) s1" "churned N sN"
    unfolding sN_def using churn_state [OF cs, of N] bw by blast+
  have nw: "(of_nat (Suc N) :: 64 word) = 0" unfolding N_def by (rule number_wraps)
  have c: "sessionCounter (client sN) = 0"
    and l: "length (heap (client sN)) = Suc N"
    and r: "sessions (client sN) = [(1, 0)]"
    and p: "idleSession (client sN) = []"
    and q: "seq (heap (client sN) ! 0) = 1"
    and o: "\<not> closed (heap (client sN) ! 0)"
    and t: "closing sN = []"
    using ch(3) nw unfolding churned_def by simp_all
  note tl = wrapped_tail [OF c l r p q o t]
  have ok: "step_ok (StInsert 0 0) (apply_step (StCreateSession 0 True) sN)"
    and io: "insert_open (StInsert 0 0) (apply_step (StCreateSession 0 True) sN)"
    and t4: "closing s4 = []"
    and p4: "idleSession (client s4) = [(MaxUint64 - 1, 0)]"
    and r4: "sessions (client s4) = [(1, Suc N)]"
    unfolding s4_def using tl by blast+
  have wh: "wrapped_history = StCreateSession 0 True # churn N @ [StCreateSession 0 True, StInsert 0 0]"
    unfolding wrapped_history_def N_def by (rule refl)
  have w: "wrapped_sys = s4"
    unfolding wrapped_sys_def wh s4_def sN_def s1_def s0_def by simp
  have run1: "steps_run (churn N @ [StCreateSession 0 True, StInsert 0 0]) s1 = Some s4"
    using ch(1) ok unfolding s4_def by (simp add: steps_run_append)
  have run: "steps_run wrapped_history s0 = Some s4"
    unfolding wh using run1 unfolding s1_def by simp
  have ins1: "inserts_open (churn N @ [StCreateSession 0 True, StInsert 0 0]) s1"
    using ch(2) io unfolding sN_def by (simp add: inserts_open_append)
  have ins: "inserts_open wrapped_history s0"
    unfolding wh using ins1 unfolding s1_def by simp
  show ?thesis
    using run ins t4 p4 r4 unfolding w s0_def N_def by blast
qed

subsection \<open>Containment\<close>

text \<open>
  C7, as the code has it. In every state that the client reaches from \<open>NewClient\<close> by the
  steps of its operations (session creation and registration, taking a session from the
  pool, insertion into the pool by a stream hook or a proactive creator, the close or
  death of a session, the scan of a tick, the snapshot of \<open>Close\<close> and each of its closes),
  where every insertion inserts a session that is open at that moment and fewer than
  \<open>2^64\<close> sessions have been created, every session of the idle pool is in the session
  registry or in the snapshot of a \<open>Close\<close> that has not closed it yet. When no \<open>Close\<close> is
  on its way, the idle pool is a subset of the session registry.
\<close>

theorem steps_containment:
  assumes "steps_run steps (start config) = Some s"
    and "inserts_open steps (start config)"
    and "length (heap (client s)) < 2 ^ 64"
  shows "IdlePool (client s) \<subseteq> SessionRegistry (client s) \<union> set (closing s)
   \<and> (closing s = [] \<longrightarrow> IdlePool (client s) \<subseteq> SessionRegistry (client s))"
proof -
  have "registry_inv (closing (start config)) (client (start config))"
    by (simp add: start_def registry_NewClient)
  moreover have "pool_keyed (client (start config))"
    by (simp add: start_def keyed_NewClient)
  ultimately have "registry_inv (closing s) (client s) \<and> pool_keyed (client s)"
    using assms by (rule registry_steps_run)
  then have "IdlePool (client s) \<subseteq> SessionRegistry (client s) \<union> set (closing s)"
    by (simp add: registry_containment_closing)
  then show ?thesis by auto
qed

theorem steps_containment_witness:
  "steps_run stepwise_history (start zero_ClientConfig) = Some stepwise_sys
   \<and> inserts_open stepwise_history (start zero_ClientConfig)
   \<and> map snd (idleSession (client stepwise_sys)) = [1]
   \<and> sessions (client stepwise_sys) = []
   \<and> closing stepwise_sys = [1]
   \<and> IdlePool (client stepwise_sys)
       \<subseteq> SessionRegistry (client stepwise_sys) \<union> set (closing stepwise_sys)
   \<and> steps_run (stepwise_history @ [StCloseNext]) (start zero_ClientConfig)
       = Some (apply_step StCloseNext stepwise_sys)
   \<and> closing (apply_step StCloseNext stepwise_sys) = []
   \<and> IdlePool (client (apply_step StCloseNext stepwise_sys))
       \<subseteq> SessionRegistry (client (apply_step StCloseNext stepwise_sys))"
proof -
  let ?s0 = "start zero_ClientConfig"
  let ?s2 = "apply_step StCloseNext stepwise_sys"
  have r: "steps_run stepwise_history ?s0 = Some stepwise_sys" by code_simp
  have o: "inserts_open stepwise_history ?s0" by code_simp
  have l: "length (heap (client stepwise_sys)) = 2" by code_simp
  have b: "length (heap (client stepwise_sys)) < 2 ^ 64" by (simp only: l) simp
  have p: "map snd (idleSession (client stepwise_sys)) = [1]" by code_simp
  have g: "sessions (client stepwise_sys) = []" by code_simp
  have c: "closing stepwise_sys = [1]" by code_simp
  have r2: "steps_run (stepwise_history @ [StCloseNext]) ?s0 = Some ?s2" by code_simp
  have o2: "inserts_open (stepwise_history @ [StCloseNext]) ?s0" by code_simp
  have l2: "length (heap (client ?s2)) = 2" by code_simp
  have b2: "length (heap (client ?s2)) < 2 ^ 64" by (simp only: l2) simp
  have c2: "closing ?s2 = []" by code_simp
  from steps_containment [OF r o b] steps_containment [OF r2 o2 b2] r o p g c r2 c2
  show ?thesis by blast
qed

text \<open>
  The containment fails in three ways. Inside \<open>Close\<close>, when the registry is emptied and
  the lock released, the pooled session of the snapshot is still in the pool (first
  history). When \<open>Close\<close> runs between the registration of a session and its insertion, the
  insertion pools a closed session that no registry holds, and no operation is on its way
  (second history; the insertion is not one of an open session). When the counter wraps
  around, the new session takes the number and the registry entry of the first one, which
  is open and is then pooled (fourth history; every insertion is one of an open session).
\<close>

theorem containment_counterexample:
  "steps_run midclose_history (start zero_ClientConfig) = Some midclose_sys
   \<and> inserts_open midclose_history (start zero_ClientConfig)
   \<and> idleSession (client midclose_sys) = [(MaxUint64 - 1, 0)]
   \<and> sessions (client midclose_sys) = []
   \<and> closing midclose_sys = [0]
   \<and> \<not> IdlePool (client midclose_sys) \<subseteq> SessionRegistry (client midclose_sys)
   \<and> steps_run raced_history (start zero_ClientConfig) = Some raced_sys
   \<and> \<not> inserts_open raced_history (start zero_ClientConfig)
   \<and> idleSession (client raced_sys) = [(MaxUint64 - 1, 0)]
   \<and> closed (heap (client raced_sys) ! 0)
   \<and> sessions (client raced_sys) = []
   \<and> closing raced_sys = []
   \<and> \<not> IdlePool (client raced_sys) \<subseteq> SessionRegistry (client raced_sys)
   \<and> steps_run wrapped_history (start zero_ClientConfig) = Some wrapped_sys
   \<and> inserts_open wrapped_history (start zero_ClientConfig)
   \<and> idleSession (client wrapped_sys) = [(MaxUint64 - 1, 0)]
   \<and> sessions (client wrapped_sys) = [(1, 2 ^ 64)]
   \<and> closing wrapped_sys = []
   \<and> \<not> IdlePool (client wrapped_sys) \<subseteq> SessionRegistry (client wrapped_sys)"
proof -
  have m: "steps_run midclose_history (start zero_ClientConfig) = Some midclose_sys
     \<and> inserts_open midclose_history (start zero_ClientConfig)
     \<and> idleSession (client midclose_sys) = [(MaxUint64 - 1, 0)]
     \<and> sessions (client midclose_sys) = []
     \<and> closing midclose_sys = [0]
     \<and> \<not> IdlePool (client midclose_sys) \<subseteq> SessionRegistry (client midclose_sys)"
    by code_simp
  have r: "steps_run raced_history (start zero_ClientConfig) = Some raced_sys
     \<and> \<not> inserts_open raced_history (start zero_ClientConfig)
     \<and> idleSession (client raced_sys) = [(MaxUint64 - 1, 0)]
     \<and> closed (heap (client raced_sys) ! 0)
     \<and> sessions (client raced_sys) = []
     \<and> closing raced_sys = []
     \<and> \<not> IdlePool (client raced_sys) \<subseteq> SessionRegistry (client raced_sys)"
    by code_simp
  have n: "Suc (2 ^ 64 - 1) = (2 ^ 64 :: nat)" by simp
  have w: "steps_run wrapped_history (start zero_ClientConfig) = Some wrapped_sys"
    and i: "inserts_open wrapped_history (start zero_ClientConfig)"
    and c: "closing wrapped_sys = []"
    and p: "idleSession (client wrapped_sys) = [(MaxUint64 - 1, 0)]"
    and s: "sessions (client wrapped_sys) = [(1, 2 ^ 64)]"
    using wrapped_state unfolding n by blast+
  have "IdlePool (client wrapped_sys) = {0}" unfolding IdlePool_def p by simp
  moreover have "SessionRegistry (client wrapped_sys) = {2 ^ 64}"
    unfolding SessionRegistry_def s by simp
  ultimately have x: "\<not> IdlePool (client wrapped_sys) \<subseteq> SessionRegistry (client wrapped_sys)"
    by simp
  from m r w i c p s x show ?thesis by blast
qed

end
